theory Spec2Isabelle
  imports Main "HOL-Library.Word"
begin

section \<open>The CustomKeypad driver\<close>

text \<open>
  A shallow embedding of \<^verbatim>\<open>src/CustomKeypad.h\<close> and \<^verbatim>\<open>src/CustomKeypad.cpp\<close>.
  On the Arduino targets \<^verbatim>\<open>byte\<close> and \<^verbatim>\<open>char\<close> have 8 bits and \<^verbatim>\<open>unsigned long\<close> has 32.
  \<^verbatim>\<open>unsigned int\<close> has 16 bits on the AVR boards and 32 on the ARM and ESP boards: its
  width is the parameter \<open>'u\<close> of the class, and the scenarios take 16. A comparison
  between an \<^verbatim>\<open>unsigned long\<close> and an \<^verbatim>\<open>unsigned int\<close> converts the latter to
  \<^verbatim>\<open>unsigned long\<close> (\<open>ucast\<close>); subtraction of two \<^verbatim>\<open>unsigned long\<close> wraps modulo
  \<open>2 ^ 32\<close>, which is subtraction on \<open>32 word\<close>.
\<close>

type_synonym byte = "8 word"
type_synonym c_char = "8 word"
type_synonym unsigned_long = "32 word"

subsection \<open>Constants and types of the header\<close>

definition KEY_RELEASED :: c_char where "KEY_RELEASED = 0"
definition KEY_PRESSED :: c_char where "KEY_PRESSED = 1"
definition KEY_HOLD :: c_char where "KEY_HOLD = 2"

type_synonym KeypadEvent = c_char

text \<open>
  A \<^verbatim>\<open>KeypadEventListener\<close> is a pointer to a function \<^verbatim>\<open>void f(KeypadEvent)\<close>. The
  model keeps the address of the function (\<open>None\<close> is \<^verbatim>\<open>nullptr\<close>); what a call of the
  listener does is outside the driver, so a call is recorded as the pair of the function
  called and its argument, and every operation that can call the listener returns the
  list of the calls it made, in order. The listener is taken not to call back into the
  driver.
\<close>

type_synonym KeypadEventListener = nat
type_synonym listener_call = "KeypadEventListener \<times> KeypadEvent"

record (overloaded) ('u::len) CustomKeypad =
  rows :: "byte list"
  cols :: "byte list"
  numRows :: byte
  numCols :: byte
  keymap :: "c_char list list"
  debounceTime :: "'u word"
  holdTime :: "'u word"
  lastChange :: unsigned_long
  pressStart :: unsigned_long
  lastKey :: c_char
  keyState :: c_char
  holding :: bool
  eventListener :: "KeypadEventListener option"

text \<open>
  The constructor stores its five arguments; the other members have the default member
  initialisers of the class declaration.
\<close>

definition CustomKeypad_init ::
  "c_char list list \<Rightarrow> byte list \<Rightarrow> byte list \<Rightarrow> byte \<Rightarrow> byte \<Rightarrow> 'u::len CustomKeypad" where
  "CustomKeypad_init userKeymap rowPins colPins nRows nCols =
     \<lparr> rows = rowPins, cols = colPins, numRows = nRows, numCols = nCols,
       keymap = userKeymap, debounceTime = 50, holdTime = 1000,
       lastChange = 0, pressStart = 0, lastKey = 0, keyState = KEY_RELEASED,
       holding = False, eventListener = None \<rparr>"

subsection \<open>Arrays and pins\<close>

text \<open>
  \<^verbatim>\<open>_rows\<close>, \<^verbatim>\<open>_cols\<close>, \<^verbatim>\<open>_keymap\<close> and the buffer of \<^verbatim>\<open>getKeys\<close> are pointers to arrays
  of the caller. An array is a list; an access outside its extent is undefined behaviour
  in C++ and is the error \<open>OutOfBounds\<close> here.
\<close>

datatype error = OutOfBounds

definition array_read :: "'a list \<Rightarrow> nat \<Rightarrow> error + 'a" where
  "array_read xs i = (if i < length xs then Inr (xs ! i) else Inl OutOfBounds)"

definition array_write :: "'a list \<Rightarrow> nat \<Rightarrow> 'a \<Rightarrow> error + 'a list" where
  "array_write xs i v = (if i < length xs then Inr (xs[i := v]) else Inl OutOfBounds)"

datatype level = LOW | HIGH
datatype pin_mode = INPUT | OUTPUT

text \<open>The output latch of every pin, and the direction of every configured pin.\<close>

type_synonym pins = "byte \<Rightarrow> level"
type_synonym modes = "byte \<Rightarrow> pin_mode option"

definition digitalWrite :: "byte \<Rightarrow> level \<Rightarrow> pins \<Rightarrow> pins" where
  "digitalWrite p v lv = lv(p := v)"

definition pinMode :: "byte \<Rightarrow> pin_mode \<Rightarrow> modes \<Rightarrow> modes" where
  "pinMode p m md = md(p \<mapsto> m)"

text \<open>
  The keypad itself is the environment of the driver. A snapshot of it says which
  switches are closed: \<open>sw r c\<close> holds when the switch at row \<open>r\<close> and column \<open>c\<close> is.
  Row \<open>r\<close> is wired to the pin \<open>rows ! r\<close> and column \<open>c\<close> to the pin \<open>cols ! c\<close>. With the
  pull-downs that the driver assumes, a pin reads HIGH exactly when a row wired to it is
  bridged by a closed switch to a column whose pin is driven HIGH.
\<close>

type_synonym switches = "nat \<Rightarrow> nat \<Rightarrow> bool"

definition digitalRead :: "switches \<Rightarrow> 'u::len CustomKeypad \<Rightarrow> pins \<Rightarrow> byte \<Rightarrow> level" where
  "digitalRead sw kp lv p =
     (if list_ex (\<lambda>r. rows kp ! r = p \<and>
            list_ex (\<lambda>c. lv (cols kp ! c) = HIGH \<and> sw r c) [0..<length (cols kp)])
          [0..<length (rows kp)]
      then HIGH else LOW)"

subsection \<open>begin\<close>

text \<open>
  The loop counters \<open>c\<close> and \<open>r\<close> are of type \<^verbatim>\<open>byte\<close> in the source. A counter is
  incremented only while it is below \<^verbatim>\<open>_numCols\<close> or \<^verbatim>\<open>_numRows\<close>, themselves at most
  255, so the increment never wraps and the counters are natural numbers here.
\<close>

function begin_cols :: "'u::len CustomKeypad \<Rightarrow> nat \<Rightarrow> modes \<times> pins \<Rightarrow> error + (modes \<times> pins)" where
  "begin_cols kp c (md, lv) =
     (if c < unat (numCols kp) then
        (case array_read (cols kp) c of Inl e \<Rightarrow> Inl e | Inr cp \<Rightarrow>
           begin_cols kp (c + 1) (pinMode cp OUTPUT md, digitalWrite cp LOW lv))
      else Inr (md, lv))"
  by pat_completeness auto
termination
  by (relation "measure (\<lambda>(kp, c, s). unat (numCols kp) - c)") auto

function begin_rows :: "'u::len CustomKeypad \<Rightarrow> nat \<Rightarrow> modes \<times> pins \<Rightarrow> error + (modes \<times> pins)" where
  "begin_rows kp r (md, lv) =
     (if r < unat (numRows kp) then
        (case array_read (rows kp) r of Inl e \<Rightarrow> Inl e | Inr rp \<Rightarrow>
           begin_rows kp (r + 1) (pinMode rp INPUT md, lv))
      else Inr (md, lv))"
  by pat_completeness auto
termination
  by (relation "measure (\<lambda>(kp, r, s). unat (numRows kp) - r)") auto

definition CustomKeypad_begin :: "'u::len CustomKeypad \<Rightarrow> modes \<times> pins \<Rightarrow> error + (modes \<times> pins)" where
  "CustomKeypad_begin kp s = (case begin_cols kp 0 s of Inl e \<Rightarrow> Inl e | Inr s' \<Rightarrow> begin_rows kp 0 s')"

subsection \<open>scanKeypad\<close>

text \<open>
  The inner loop of \<^verbatim>\<open>scanKeypad\<close> over the rows, with column \<open>c\<close> driven HIGH. It
  either leaves the whole function with a character (\<open>Some\<close>), after driving the column
  LOW again, or runs to its end (\<open>None\<close>). \<^verbatim>\<open>delayMicroseconds\<close> changes nothing that
  the model holds.
\<close>

function scanKeypad_rows ::
  "switches \<Rightarrow> 'u::len CustomKeypad \<Rightarrow> nat \<Rightarrow> nat \<Rightarrow> pins \<Rightarrow> error + (c_char option \<times> pins)" where
  "scanKeypad_rows sw kp c r lv =
     (if r < unat (numRows kp) then
        (case array_read (rows kp) r of Inl e \<Rightarrow> Inl e | Inr rp \<Rightarrow>
           if digitalRead sw kp lv rp = HIGH then
             (case array_read (cols kp) c of Inl e \<Rightarrow> Inl e | Inr cp \<Rightarrow>
               (case array_read (keymap kp) r of Inl e \<Rightarrow> Inl e | Inr row \<Rightarrow>
                 (case array_read row c of Inl e \<Rightarrow> Inl e | Inr ch \<Rightarrow>
                    Inr (Some ch, digitalWrite cp LOW lv))))
           else scanKeypad_rows sw kp c (r + 1) lv)
      else Inr (None, lv))"
  by pat_completeness auto
termination
  by (relation "measure (\<lambda>(sw, kp, c, r, lv). unat (numRows kp) - r)") auto

function scanKeypad_cols ::
  "switches \<Rightarrow> 'u::len CustomKeypad \<Rightarrow> nat \<Rightarrow> pins \<Rightarrow> error + (c_char \<times> pins)" where
  "scanKeypad_cols sw kp c lv =
     (if c < unat (numCols kp) then
        (case array_read (cols kp) c of Inl e \<Rightarrow> Inl e | Inr cp \<Rightarrow>
          (case scanKeypad_rows sw kp c 0 (digitalWrite cp HIGH lv) of Inl e \<Rightarrow> Inl e
           | Inr (Some ch, lv') \<Rightarrow> Inr (ch, lv')
           | Inr (None, lv') \<Rightarrow> scanKeypad_cols sw kp (c + 1) (digitalWrite cp LOW lv')))
      else Inr (0, lv))"
  by pat_completeness auto
termination
  by (relation "measure (\<lambda>(sw, kp, c, lv). unat (numCols kp) - c)") auto

definition scanKeypad :: "switches \<Rightarrow> 'u::len CustomKeypad \<Rightarrow> pins \<Rightarrow> error + (c_char \<times> pins)" where
  "scanKeypad sw kp lv = scanKeypad_cols sw kp 0 lv"

subsection \<open>getKey\<close>

text \<open>
  \<^verbatim>\<open>if (_eventListener) _eventListener(key);\<close> calls the listener when one is
  registered.
\<close>

definition notify :: "'u::len CustomKeypad \<Rightarrow> KeypadEvent \<Rightarrow> listener_call list" where
  "notify kp key = (case eventListener kp of None \<Rightarrow> [] | Some f \<Rightarrow> [(f, key)])"

text \<open>
  \<open>getKey sw now kp lv\<close>: the keypad is in the snapshot \<open>sw\<close> during the sweep and
  \<^verbatim>\<open>millis()\<close> returns \<open>now\<close>. The result is the character returned, the calls of the
  listener, the object and the pins afterwards.
\<close>

definition getKey ::
  "switches \<Rightarrow> unsigned_long \<Rightarrow> 'u::len CustomKeypad \<Rightarrow> pins \<Rightarrow>
     error + (c_char \<times> listener_call list \<times> 'u::len CustomKeypad \<times> pins)" where
  "getKey sw now kp lv =
     (case scanKeypad sw kp lv of Inl e \<Rightarrow> Inl e | Inr (key, lv') \<Rightarrow>
        (let (calls, kp') =
           (if key \<noteq> lastKey kp then
              (if now - lastChange kp > ucast (debounceTime kp) then
                 (notify kp key,
                  kp\<lparr>lastChange := now, pressStart := now, holding := False,
                     keyState := (if key \<noteq> 0 then KEY_PRESSED else KEY_RELEASED)\<rparr>)
               else ([], kp))
            else if key \<noteq> 0 \<and> \<not> holding kp \<and> now - pressStart kp \<ge> ucast (holdTime kp) then
              (notify kp key, kp\<lparr>keyState := KEY_HOLD, holding := True\<rparr>)
            else ([], kp))
         in Inr (key, calls, kp'\<lparr>lastKey := key\<rparr>, lv')))"

subsection \<open>getKeys\<close>

text \<open>
  The inner loop of \<^verbatim>\<open>getKeys\<close>. \<open>count\<close> is a \<^verbatim>\<open>byte\<close> that is incremented only
  while it is below \<open>maxKeys\<close>, so it never wraps either.
\<close>

function getKeys_rows ::
  "switches \<Rightarrow> 'u::len CustomKeypad \<Rightarrow> pins \<Rightarrow> byte \<Rightarrow> nat \<Rightarrow> nat \<Rightarrow> nat \<times> c_char list \<Rightarrow>
     error + (nat \<times> c_char list)" where
  "getKeys_rows sw kp lv maxKeys c r (count, keysBuffer) =
     (if r < unat (numRows kp) then
        (case array_read (rows kp) r of Inl e \<Rightarrow> Inl e | Inr rp \<Rightarrow>
           if digitalRead sw kp lv rp = HIGH then
             (if count < unat maxKeys then
                (case array_read (keymap kp) r of Inl e \<Rightarrow> Inl e | Inr row \<Rightarrow>
                  (case array_read row c of Inl e \<Rightarrow> Inl e | Inr ch \<Rightarrow>
                    (case array_write keysBuffer count ch of Inl e \<Rightarrow> Inl e | Inr buf' \<Rightarrow>
                       getKeys_rows sw kp lv maxKeys c (r + 1) (count + 1, buf'))))
              else getKeys_rows sw kp lv maxKeys c (r + 1) (count, keysBuffer))
           else getKeys_rows sw kp lv maxKeys c (r + 1) (count, keysBuffer))
      else Inr (count, keysBuffer))"
  by pat_completeness auto
termination
  by (relation "measure (\<lambda>(sw, kp, lv, m, c, r, s). unat (numRows kp) - r)") auto

function getKeys_cols ::
  "switches \<Rightarrow> 'u::len CustomKeypad \<Rightarrow> byte \<Rightarrow> nat \<Rightarrow> nat \<times> c_char list \<times> pins \<Rightarrow>
     error + (nat \<times> c_char list \<times> pins)" where
  "getKeys_cols sw kp maxKeys c (count, keysBuffer, lv) =
     (if c < unat (numCols kp) then
        (case array_read (cols kp) c of Inl e \<Rightarrow> Inl e | Inr cp \<Rightarrow>
          (case getKeys_rows sw kp (digitalWrite cp HIGH lv) maxKeys c 0 (count, keysBuffer) of
             Inl e \<Rightarrow> Inl e
           | Inr (count', buf') \<Rightarrow>
               getKeys_cols sw kp maxKeys (c + 1)
                 (count', buf', digitalWrite cp LOW (digitalWrite cp HIGH lv))))
      else Inr (count, keysBuffer, lv))"
  by pat_completeness auto
termination
  by (relation "measure (\<lambda>(sw, kp, m, c, s). unat (numCols kp) - c)") auto

text \<open>
  \<open>getKeys sw kp lv keysBuffer maxKeys\<close> returns the count (a \<^verbatim>\<open>byte\<close>), the buffer and
  the pins afterwards. It has no access to a member of the state machine.
\<close>

definition getKeys ::
  "switches \<Rightarrow> 'u::len CustomKeypad \<Rightarrow> pins \<Rightarrow> c_char list \<Rightarrow> byte \<Rightarrow>
     error + (byte \<times> c_char list \<times> pins)" where
  "getKeys sw kp lv keysBuffer maxKeys =
     (case getKeys_cols sw kp maxKeys 0 (0, keysBuffer, lv) of Inl e \<Rightarrow> Inl e
      | Inr (count, buf', lv') \<Rightarrow> Inr (of_nat count, buf', lv'))"

subsection \<open>The other members\<close>

definition setDebounceTime :: "'u word \<Rightarrow> 'u::len CustomKeypad \<Rightarrow> 'u::len CustomKeypad" where
  "setDebounceTime d kp = kp\<lparr>debounceTime := d\<rparr>"

definition setHoldTime :: "'u word \<Rightarrow> 'u::len CustomKeypad \<Rightarrow> 'u::len CustomKeypad" where
  "setHoldTime h kp = kp\<lparr>holdTime := h\<rparr>"

definition addEventListener :: "KeypadEventListener option \<Rightarrow> 'u::len CustomKeypad \<Rightarrow> 'u::len CustomKeypad" where
  "addEventListener listener kp = kp\<lparr>eventListener := listener\<rparr>"

text \<open>
  The private member \<^verbatim>\<open>transitionTo\<close>; no member of the class calls it. It returns the
  calls of the listener and the object.
\<close>

definition transitionTo :: "c_char \<Rightarrow> 'u::len CustomKeypad \<Rightarrow> listener_call list \<times> 'u::len CustomKeypad" where
  "transitionTo newState kp =
     (if keyState kp \<noteq> newState then
        ((case eventListener kp of
            None \<Rightarrow> []
          | Some f \<Rightarrow> if lastKey kp \<noteq> 0 then [(f, lastKey kp)] else []),
         kp\<lparr>keyState := newState\<rparr>)
      else ([], kp))"

definition getKeyState :: "'u::len CustomKeypad \<Rightarrow> c_char" where
  "getKeyState kp = keyState kp"

definition isPressed :: "'u::len CustomKeypad \<Rightarrow> c_char \<Rightarrow> bool" where
  "isPressed kp key = (lastKey kp = key)"

subsection \<open>Sequences of polls\<close>

text \<open>
  The main loop of an application calls \<^verbatim>\<open>getKey\<close> again and again. \<open>polls\<close> runs a list
  of polls, each with the snapshot of the keypad and the value of \<^verbatim>\<open>millis()\<close> at that
  poll, and returns what each poll returned and the calls of the listener it made.
\<close>

fun polls ::
  "(switches \<times> unsigned_long) list \<Rightarrow> 'u::len CustomKeypad \<Rightarrow> pins \<Rightarrow>
     error + ((c_char \<times> listener_call list) list \<times> 'u::len CustomKeypad \<times> pins)" where
  "polls [] kp lv = Inr ([], kp, lv)"
| "polls ((sw, now) # ps) kp lv =
     (case getKey sw now kp lv of Inl e \<Rightarrow> Inl e
      | Inr (key, calls, kp', lv') \<Rightarrow>
         (case polls ps kp' lv' of Inl e \<Rightarrow> Inl e
          | Inr (out, kp'', lv'') \<Rightarrow> Inr ((key, calls) # out, kp'', lv'')))"

text \<open>What the polls of a run returned, and the calls of the listener of each.\<close>

definition returned ::
  "error + ((c_char \<times> listener_call list) list \<times> 'u::len CustomKeypad \<times> pins) \<Rightarrow> c_char list" where
  "returned res = (case res of Inl e \<Rightarrow> [] | Inr (out, kp, lv) \<Rightarrow> map fst out)"

definition called ::
  "error + ((c_char \<times> listener_call list) list \<times> 'u::len CustomKeypad \<times> pins) \<Rightarrow>
     listener_call list list" where
  "called res = (case res of Inl e \<Rightarrow> [] | Inr (out, kp, lv) \<Rightarrow> map snd out)"

subsection \<open>The keypad of the scenarios\<close>

text \<open>
  A 2x2 keypad with the keymap \<^verbatim>\<open>{{'1','2'},{'3','4'}}\<close> (the characters are 0x31 to
  0x34), rows on pins 2 and 3, columns on pins 4 and 5, the default debounce time of 50 ms
  and hold time of 1000 ms, and a listener (at address 1) registered.
\<close>

definition keymap2x2 :: "c_char list list" where
  "keymap2x2 = [[0x31, 0x32], [0x33, 0x34]]"

definition keypad2x2 :: "16 CustomKeypad" where
  "keypad2x2 = addEventListener (Some 1) (CustomKeypad_init keymap2x2 [2, 3] [4, 5] 2 2)"

definition all_low :: pins where
  "all_low = (\<lambda>p. LOW)"

definition no_key :: switches where
  "no_key = (\<lambda>r c. False)"

definition key_at :: "nat \<Rightarrow> nat \<Rightarrow> switches" where
  "key_at r0 c0 = (\<lambda>r c. r = r0 \<and> c = c0)"

text \<open>
  The object after the press of \<open>key\<close> has been accepted at the time 100, as the poll at
  100 of a key closed since then leaves it.
\<close>

definition pressed_at_100 :: "c_char \<Rightarrow> 16 CustomKeypad" where
  "pressed_at_100 key =
     keypad2x2\<lparr>lastChange := 100, pressStart := 100, keyState := KEY_PRESSED, lastKey := key\<rparr>"

text \<open>The switches at (row 0, column 1) and at (row 1, column 0) both closed.\<close>

definition two_keys :: switches where
  "two_keys = (\<lambda>r c. (r = 0 \<and> c = 1) \<or> (r = 1 \<and> c = 0))"

subsection \<open>Conditions on the configuration\<close>

text \<open>
  The arrays given to the constructor have the extents that \<^verbatim>\<open>numRows\<close> and \<^verbatim>\<open>numCols\<close>
  announce: then no access of a sweep is out of bounds.
\<close>

definition wf_config :: "'u::len CustomKeypad \<Rightarrow> bool" where
  "wf_config kp \<longleftrightarrow>
     length (rows kp) = unat (numRows kp) \<and>
     length (cols kp) = unat (numCols kp) \<and>
     length (keymap kp) = unat (numRows kp) \<and>
     list_all (\<lambda>row. length row = unat (numCols kp)) (keymap kp)"

text \<open>No pin is used for two rows or for two columns.\<close>

definition wired :: "'u::len CustomKeypad \<Rightarrow> bool" where
  "wired kp \<longleftrightarrow> distinct (rows kp) \<and> distinct (cols kp)"

text \<open>Every column pin is LOW.\<close>

definition cols_low :: "'u::len CustomKeypad \<Rightarrow> pins \<Rightarrow> bool" where
  "cols_low kp lv \<longleftrightarrow> list_all (\<lambda>p. lv p = LOW) (cols kp)"

text \<open>Two objects with the same pins, dimensions and keymap.\<close>

definition same_config :: "'u::len CustomKeypad \<Rightarrow> 'u::len CustomKeypad \<Rightarrow> bool" where
  "same_config kp' kp \<longleftrightarrow>
     rows kp' = rows kp \<and> cols kp' = cols kp \<and> numRows kp' = numRows kp \<and>
     numCols kp' = numCols kp \<and> keymap kp' = keymap kp"

subsection \<open>The sweep order\<close>

text \<open>
  The characters of the closed switches of a snapshot, in the order of the sweep:
  columns ascending, and the rows ascending within a column.
\<close>

definition closed_in_col :: "switches \<Rightarrow> 'u::len CustomKeypad \<Rightarrow> nat \<Rightarrow> c_char list" where
  "closed_in_col sw kp c =
     map (\<lambda>r. keymap kp ! r ! c) (filter (\<lambda>r. sw r c) [0..<unat (numRows kp)])"

definition closed_keys :: "switches \<Rightarrow> 'u::len CustomKeypad \<Rightarrow> c_char list" where
  "closed_keys sw kp = concat (map (closed_in_col sw kp) [0..<unat (numCols kp)])"

text \<open>
  The statement \<^verbatim>\<open>if (count < maxKeys) keysBuffer[count++] = ch;\<close> of \<^verbatim>\<open>getKeys\<close>, done
  for each character of a list in turn, on a buffer that is large enough.
\<close>

fun store_keys :: "nat \<Rightarrow> c_char list \<Rightarrow> nat \<times> c_char list \<Rightarrow> nat \<times> c_char list" where
  "store_keys m [] s = s"
| "store_keys m (ch # chs) (count, buf) =
     (if count < m then store_keys m chs (count + 1, buf[count := ch])
      else store_keys m chs (count, buf))"

section \<open>Basic facts\<close>

text \<open>The equations of the loops are unfolded by hand, one turn at a time.\<close>

declare begin_cols.simps [simp del] begin_rows.simps [simp del]
  scanKeypad_rows.simps [simp del] scanKeypad_cols.simps [simp del]
  getKeys_rows.simps [simp del] getKeys_cols.simps [simp del]

lemma digitalWrite_apply: "digitalWrite p v lv q = (if q = p then v else lv q)"
  by (simp add: digitalWrite_def)

lemma digitalWrite_restore: "lv p = LOW \<Longrightarrow> digitalWrite p LOW (digitalWrite p HIGH lv) = lv"
  by (auto simp: digitalWrite_def fun_eq_iff)

lemma digitalWrite_twice: "digitalWrite p v (digitalWrite p w lv) = digitalWrite p v lv"
  by (simp add: digitalWrite_def)

lemma array_read_in: "i < length xs \<Longrightarrow> array_read xs i = Inr (xs ! i)"
  by (simp add: array_read_def)

lemma array_write_in: "i < length xs \<Longrightarrow> array_write xs i v = Inr (xs[i := v])"
  by (simp add: array_write_def)

lemma wf_keymap_row:
  "wf_config kp \<Longrightarrow> r < unat (numRows kp) \<Longrightarrow> length (keymap kp ! r) = unat (numCols kp)"
  by (simp add: wf_config_def list_all_length)

lemma digitalRead_iff:
  "digitalRead sw kp lv p = HIGH \<longleftrightarrow>
     (\<exists>r<length (rows kp). \<exists>c<length (cols kp).
        rows kp ! r = p \<and> lv (cols kp ! c) = HIGH \<and> sw r c)"
  unfolding digitalRead_def list_ex_iff by (simp add: Bex_def) blast

text \<open>
  With the columns on different pins, the rows on different pins and every column LOW but
  the one that is driven, a row reads HIGH exactly when its switch in that column is
  closed.
\<close>

lemma digitalRead_single:
  assumes "wired kp" "cols_low kp lv" "c < length (cols kp)" "r < length (rows kp)"
  shows "digitalRead sw kp (digitalWrite (cols kp ! c) HIGH lv) (rows kp ! r) = HIGH \<longleftrightarrow> sw r c"
proof -
  have low: "\<And>c'. c' < length (cols kp) \<Longrightarrow> lv (cols kp ! c') = LOW"
    using assms(2) by (simp add: cols_low_def list_all_length)
  have dr: "distinct (rows kp)" and dc: "distinct (cols kp)"
    using assms(1) by (simp_all add: wired_def)
  show ?thesis
  proof
    assume "digitalRead sw kp (digitalWrite (cols kp ! c) HIGH lv) (rows kp ! r) = HIGH"
    then obtain r' c' where h: "r' < length (rows kp)" "c' < length (cols kp)"
      "rows kp ! r' = rows kp ! r"
      "digitalWrite (cols kp ! c) HIGH lv (cols kp ! c') = HIGH" "sw r' c'"
      unfolding digitalRead_iff by blast
    from h(1,3) assms(4) dr have "r' = r" by (simp add: nth_eq_iff_index_eq)
    moreover from h(4) low[OF h(2)] have "cols kp ! c' = cols kp ! c"
      by (simp add: digitalWrite_apply split: if_splits)
    with h(2) assms(3) dc have "c' = c" by (simp add: nth_eq_iff_index_eq)
    ultimately show "sw r c" using h(5) by simp
  next
    assume "sw r c"
    then show "digitalRead sw kp (digitalWrite (cols kp ! c) HIGH lv) (rows kp ! r) = HIGH"
      unfolding digitalRead_iff using assms(3,4) by (auto simp: digitalWrite_apply)
  qed
qed

subsection \<open>The sweep of \<open>scanKeypad\<close>\<close>

lemma scanKeypad_rows_total:
  assumes "wf_config kp" "c < unat (numCols kp)"
  shows "\<exists>res. scanKeypad_rows sw kp c r lv =
           Inr (res, if res = None then lv else digitalWrite (cols kp ! c) LOW lv)"
proof (induction "unat (numRows kp) - r" arbitrary: r)
  case 0
  then show ?case by (subst scanKeypad_rows.simps) simp
next
  case (Suc n)
  then have r: "r < unat (numRows kp)" and n: "n = unat (numRows kp) - (r + 1)" by simp_all
  from assms r have rd: "array_read (rows kp) r = Inr (rows kp ! r)"
    "array_read (cols kp) c = Inr (cols kp ! c)"
    "array_read (keymap kp) r = Inr (keymap kp ! r)"
    "array_read (keymap kp ! r) c = Inr (keymap kp ! r ! c)"
    by (simp_all add: array_read_in wf_config_def wf_keymap_row)
  show ?case
  proof (cases "digitalRead sw kp lv (rows kp ! r) = HIGH")
    case True
    then show ?thesis by (subst scanKeypad_rows.simps) (simp add: r rd)
  next
    case False
    with Suc.hyps(1) [OF n] show ?thesis by (subst scanKeypad_rows.simps) (simp add: r rd)
  qed
qed

lemma scanKeypad_cols_total:
  assumes "wf_config kp"
  shows "\<exists>ch lv'. scanKeypad_cols sw kp c lv = Inr (ch, lv') \<and>
           (\<forall>p. lv' p = lv p \<or> (lv' p = LOW \<and> p \<in> set (cols kp)))"
proof (induction "unat (numCols kp) - c" arbitrary: c lv)
  case 0
  then show ?case by (subst scanKeypad_cols.simps) simp
next
  case (Suc n)
  then have c: "c < unat (numCols kp)" and n: "n = unat (numCols kp) - (c + 1)" by simp_all
  let ?cp = "cols kp ! c"
  from assms c have rd: "array_read (cols kp) c = Inr ?cp" and mem: "?cp \<in> set (cols kp)"
    by (simp_all add: array_read_in wf_config_def)
  from scanKeypad_rows_total [OF assms c, of sw 0 "digitalWrite ?cp HIGH lv"]
  obtain res where res: "scanKeypad_rows sw kp c 0 (digitalWrite ?cp HIGH lv) =
      Inr (res, if res = None then digitalWrite ?cp HIGH lv
                else digitalWrite ?cp LOW (digitalWrite ?cp HIGH lv))" by blast
  show ?case
  proof (cases res)
    case None
    from Suc.hyps(1) [OF n, of "digitalWrite ?cp LOW (digitalWrite ?cp HIGH lv)"]
    obtain ch lv' where h: "scanKeypad_cols sw kp (c + 1) (digitalWrite ?cp LOW (digitalWrite ?cp HIGH lv)) = Inr (ch, lv')"
      "\<forall>p. lv' p = digitalWrite ?cp LOW (digitalWrite ?cp HIGH lv) p \<or> (lv' p = LOW \<and> p \<in> set (cols kp))"
      by blast
    have "scanKeypad_cols sw kp c lv = Inr (ch, lv')"
      using h(1) by (subst scanKeypad_cols.simps) (simp add: c rd res None)
    moreover have "\<forall>p. lv' p = lv p \<or> (lv' p = LOW \<and> p \<in> set (cols kp))"
      using h(2) mem by (auto simp: digitalWrite_apply split: if_splits)
    ultimately show ?thesis by blast
  next
    case (Some ch)
    have "scanKeypad_cols sw kp c lv = Inr (ch, digitalWrite ?cp LOW (digitalWrite ?cp HIGH lv))"
      by (subst scanKeypad_cols.simps) (simp add: c rd res Some)
    moreover have "\<forall>p. digitalWrite ?cp LOW (digitalWrite ?cp HIGH lv) p = lv p \<or>
        (digitalWrite ?cp LOW (digitalWrite ?cp HIGH lv) p = LOW \<and> p \<in> set (cols kp))"
      using mem by (auto simp: digitalWrite_apply)
    ultimately show ?thesis by blast
  qed
qed

lemma cols_low_kept:
  assumes "cols_low kp lv" "\<forall>p. lv' p = lv p \<or> (lv' p = LOW \<and> p \<in> set (cols kp))"
  shows "cols_low kp lv'"
  using assms unfolding cols_low_def list_all_iff by metis

lemma cols_low_same:
  assumes "cols_low kp lv" "\<forall>p. lv' p = lv p \<or> (lv' p = LOW \<and> p \<in> set (cols kp))"
  shows "lv' = lv"
proof
  fix p show "lv' p = lv p"
    using assms unfolding cols_low_def list_all_iff by metis
qed


lemma store_keys_length: "length (snd (store_keys m chs s)) = length (snd s)"
  by (induction m chs s rule: store_keys.induct) simp_all

lemma store_keys_append: "store_keys m (xs @ ys) s = store_keys m ys (store_keys m xs s)"
  by (induction m xs s rule: store_keys.induct) simp_all

lemma store_keys_closed:
  "count \<le> m \<Longrightarrow> m \<le> length buf \<Longrightarrow>
   store_keys m chs (count, buf) =
     (min m (count + length chs),
      take count buf @ take (m - count) chs @ drop (min m (count + length chs)) buf)"
proof (induction chs arbitrary: count buf)
  case Nil
  then show ?case by (simp add: min_absorb2)
next
  case (Cons ch chs)
  show ?case
  proof (cases "count < m")
    case True
    with Cons.prems have lt: "count < length buf" by simp
    have t: "take (Suc count) (buf[count := ch]) = take count buf @ [ch]"
      using lt by (simp add: take_Suc_conv_app_nth)
    have d: "drop (min m (Suc (count + length chs))) (buf[count := ch]) =
             drop (min m (Suc (count + length chs))) buf"
      using True by (simp add: drop_update_cancel)
    have k: "take (m - count) (ch # chs) = ch # take (m - Suc count) chs"
      using True by (simp add: take_Cons')
    from True Cons.prems Cons.IH [of "Suc count" "buf[count := ch]"] show ?thesis
      by (simp add: t d k)
  next
    case False
    with Cons.prems have "count = m" by simp
    with Cons.prems Cons.IH [of count buf] show ?thesis by simp
  qed
qed

lemma getKeys_rows_result:
  assumes "wf_config kp" "c < unat (numCols kp)" "unat maxKeys \<le> length buf"
  shows "getKeys_rows sw kp lv maxKeys c r (count, buf) =
           Inr (store_keys (unat maxKeys)
                  (map (\<lambda>r. keymap kp ! r ! c)
                     (filter (\<lambda>r. digitalRead sw kp lv (rows kp ! r) = HIGH)
                        [r..<unat (numRows kp)]))
                  (count, buf))"
  using assms(3)
proof (induction "unat (numRows kp) - r" arbitrary: r count buf)
  case 0
  then show ?case by (subst getKeys_rows.simps) simp
next
  case (Suc n)
  then have r: "r < unat (numRows kp)" and n: "n = unat (numRows kp) - (r + 1)" by simp_all
  from assms(1,2) r have rd: "array_read (rows kp) r = Inr (rows kp ! r)"
    "array_read (keymap kp) r = Inr (keymap kp ! r)"
    "array_read (keymap kp ! r) c = Inr (keymap kp ! r ! c)"
    by (simp_all add: array_read_in wf_config_def wf_keymap_row)
  have up: "[r..<unat (numRows kp)] = r # [r + 1..<unat (numRows kp)]"
    using r by (simp add: upt_conv_Cons)
  show ?case
  proof (cases "digitalRead sw kp lv (rows kp ! r) = HIGH")
    case False
    with Suc.hyps(1) [OF n Suc.prems, of count] show ?thesis
      by (subst getKeys_rows.simps) (simp add: r rd up)
  next
    case True
    show ?thesis
    proof (cases "count < unat maxKeys")
      case False
      with True Suc.hyps(1) [OF n Suc.prems, of count] show ?thesis
        by (subst getKeys_rows.simps) (simp add: r rd up)
    next
      case lt: True
      with Suc.prems have wr: "array_write buf count (keymap kp ! r ! c) =
          Inr (buf[count := keymap kp ! r ! c])"
        by (simp add: array_write_in)
      have len: "unat maxKeys \<le> length (buf[count := keymap kp ! r ! c])"
        using Suc.prems by simp
      from True lt Suc.hyps(1) [OF n len, of "count + 1"] show ?thesis
        by (subst getKeys_rows.simps) (simp add: r rd up wr)
    qed
  qed
qed


lemma getKeys_cols_total:
  assumes "wf_config kp"
  shows "\<exists>ws lv'.
           (\<forall>count buf. unat maxKeys \<le> length buf \<longrightarrow>
              getKeys_cols sw kp maxKeys c (count, buf, lv) =
                Inr (fst (store_keys (unat maxKeys) ws (count, buf)),
                     snd (store_keys (unat maxKeys) ws (count, buf)), lv')) \<and>
           (\<forall>p. lv' p = lv p \<or> (lv' p = LOW \<and> p \<in> set (cols kp)))"
proof (induction "unat (numCols kp) - c" arbitrary: c lv)
  case 0
  then have "\<forall>count buf. getKeys_cols sw kp maxKeys c (count, buf, lv) =
      Inr (fst (store_keys (unat maxKeys) [] (count, buf)),
           snd (store_keys (unat maxKeys) [] (count, buf)), lv)"
    by (subst getKeys_cols.simps) simp
  then show ?case by blast
next
  case (Suc n)
  then have c: "c < unat (numCols kp)" and n: "n = unat (numCols kp) - (c + 1)" by simp_all
  let ?cp = "cols kp ! c"
  let ?hi = "digitalWrite ?cp HIGH lv"
  let ?lo = "digitalWrite ?cp LOW ?hi"
  let ?ks = "map (\<lambda>r. keymap kp ! r ! c)
               (filter (\<lambda>r. digitalRead sw kp ?hi (rows kp ! r) = HIGH) [0..<unat (numRows kp)])"
  from assms c have rd: "array_read (cols kp) c = Inr ?cp" and mem: "?cp \<in> set (cols kp)"
    by (simp_all add: array_read_in wf_config_def)
  from Suc.hyps(1) [OF n, of ?lo]
  obtain ws lv' where h:
    "\<And>count buf. unat maxKeys \<le> length buf \<Longrightarrow>
        getKeys_cols sw kp maxKeys (c + 1) (count, buf, ?lo) =
          Inr (fst (store_keys (unat maxKeys) ws (count, buf)),
               snd (store_keys (unat maxKeys) ws (count, buf)), lv')"
    "\<forall>p. lv' p = ?lo p \<or> (lv' p = LOW \<and> p \<in> set (cols kp))"
    by blast
  have "getKeys_cols sw kp maxKeys c (count, buf, lv) =
          Inr (fst (store_keys (unat maxKeys) (?ks @ ws) (count, buf)),
               snd (store_keys (unat maxKeys) (?ks @ ws) (count, buf)), lv')"
    if len: "unat maxKeys \<le> length buf" for count buf
  proof -
    obtain count1 buf1 where s1: "store_keys (unat maxKeys) ?ks (count, buf) = (count1, buf1)"
      by (cases "store_keys (unat maxKeys) ?ks (count, buf)")
    have "length buf1 = length buf"
      using store_keys_length [of "unat maxKeys" ?ks "(count, buf)"] s1 by simp
    with len have len1: "unat maxKeys \<le> length buf1" by simp
    have rows: "getKeys_rows sw kp ?hi maxKeys c 0 (count, buf) = Inr (count1, buf1)"
      using getKeys_rows_result [OF assms c len, of sw ?hi 0 count] s1 by simp
    show ?thesis
      using h(1) [OF len1, of count1]
      by (subst getKeys_cols.simps) (simp add: c rd rows store_keys_append s1)
  qed
  moreover have "\<forall>p. lv' p = lv p \<or> (lv' p = LOW \<and> p \<in> set (cols kp))"
    using h(2) mem by (auto simp: digitalWrite_apply split: if_splits)
  ultimately show ?case by blast
qed

lemma closed_filter:
  assumes "wf_config kp" "wired kp" "cols_low kp lv" "c < unat (numCols kp)"
  shows "filter (\<lambda>r. digitalRead sw kp (digitalWrite (cols kp ! c) HIGH lv) (rows kp ! r) = HIGH)
           [r0..<unat (numRows kp)] = filter (\<lambda>r. sw r c) [r0..<unat (numRows kp)]"
proof (rule filter_cong [OF refl])
  fix r assume "r \<in> set [r0..<unat (numRows kp)]"
  then have "r < length (rows kp)" using assms(1) by (simp add: wf_config_def)
  moreover have "c < length (cols kp)" using assms(1,4) by (simp add: wf_config_def)
  ultimately show "(digitalRead sw kp (digitalWrite (cols kp ! c) HIGH lv) (rows kp ! r) = HIGH) = sw r c"
    using digitalRead_single [OF assms(2,3)] by blast
qed

lemma cols_low_nth: "cols_low kp lv \<Longrightarrow> c < length (cols kp) \<Longrightarrow> lv (cols kp ! c) = LOW"
  by (simp add: cols_low_def list_all_length)

lemma getKeys_cols_closed:
  assumes "wf_config kp" "wired kp" "cols_low kp lv" "unat maxKeys \<le> length buf"
  shows "getKeys_cols sw kp maxKeys c (count, buf, lv) =
           Inr (fst (store_keys (unat maxKeys)
                       (concat (map (closed_in_col sw kp) [c..<unat (numCols kp)])) (count, buf)),
                snd (store_keys (unat maxKeys)
                       (concat (map (closed_in_col sw kp) [c..<unat (numCols kp)])) (count, buf)),
                lv)"
  using assms(4)
proof (induction "unat (numCols kp) - c" arbitrary: c count buf)
  case 0
  then show ?case by (subst getKeys_cols.simps) simp
next
  case (Suc n)
  then have c: "c < unat (numCols kp)" and n: "n = unat (numCols kp) - (c + 1)" by simp_all
  let ?cp = "cols kp ! c"
  let ?hi = "digitalWrite ?cp HIGH lv"
  from assms(1) c have cl: "c < length (cols kp)" by (simp add: wf_config_def)
  then have rd: "array_read (cols kp) c = Inr ?cp" by (simp add: array_read_in)
  have lo: "digitalWrite ?cp LOW ?hi = lv"
    using cols_low_nth [OF assms(3) cl] by (rule digitalWrite_restore)
  have up: "[c..<unat (numCols kp)] = c # [c + 1..<unat (numCols kp)]"
    using c by (simp add: upt_conv_Cons)
  obtain count1 buf1 where s1:
    "store_keys (unat maxKeys) (closed_in_col sw kp c) (count, buf) = (count1, buf1)"
    by (cases "store_keys (unat maxKeys) (closed_in_col sw kp c) (count, buf)")
  have "length buf1 = length buf"
    using store_keys_length [of "unat maxKeys" "closed_in_col sw kp c" "(count, buf)"] s1 by simp
  with Suc.prems have len1: "unat maxKeys \<le> length buf1" by simp
  have rows: "getKeys_rows sw kp ?hi maxKeys c 0 (count, buf) = Inr (count1, buf1)"
    using getKeys_rows_result [OF assms(1) c Suc.prems, of sw ?hi 0 count] s1
    by (simp add: closed_filter [OF assms(1,2,3) c] closed_in_col_def)
  show ?case
    using Suc.hyps(1) [OF n len1, of count1]
    by (subst getKeys_cols.simps) (simp add: c rd rows lo up store_keys_append s1)
qed


lemma scanKeypad_rows_closed:
  assumes "wf_config kp" "wired kp" "cols_low kp lv" "c < unat (numCols kp)"
  shows "scanKeypad_rows sw kp c r0 (digitalWrite (cols kp ! c) HIGH lv) =
           Inr (case map (\<lambda>r. keymap kp ! r ! c) (filter (\<lambda>r. sw r c) [r0..<unat (numRows kp)]) of
                  [] \<Rightarrow> (None, digitalWrite (cols kp ! c) HIGH lv)
                | ch # rest \<Rightarrow> (Some ch, lv))"
proof (induction "unat (numRows kp) - r0" arbitrary: r0)
  case 0
  then show ?case by (subst scanKeypad_rows.simps) simp
next
  case (Suc n)
  then have r: "r0 < unat (numRows kp)" and n: "n = unat (numRows kp) - (r0 + 1)" by simp_all
  from assms(1,4) r have cl: "c < length (cols kp)" and rl: "r0 < length (rows kp)"
    by (simp_all add: wf_config_def)
  from assms(1,4) r have rd: "array_read (rows kp) r0 = Inr (rows kp ! r0)"
    "array_read (cols kp) c = Inr (cols kp ! c)"
    "array_read (keymap kp) r0 = Inr (keymap kp ! r0)"
    "array_read (keymap kp ! r0) c = Inr (keymap kp ! r0 ! c)"
    by (simp_all add: array_read_in wf_config_def wf_keymap_row)
  have up: "[r0..<unat (numRows kp)] = r0 # [r0 + 1..<unat (numRows kp)]"
    using r by (simp add: upt_conv_Cons)
  have read: "digitalRead sw kp (digitalWrite (cols kp ! c) HIGH lv) (rows kp ! r0) = HIGH \<longleftrightarrow> sw r0 c"
    by (rule digitalRead_single [OF assms(2,3) cl rl])
  have lo: "digitalWrite (cols kp ! c) LOW (digitalWrite (cols kp ! c) HIGH lv) = lv"
    using cols_low_nth [OF assms(3) cl] by (rule digitalWrite_restore)
  show ?case
  proof (cases "sw r0 c")
    case True
    then show ?thesis by (subst scanKeypad_rows.simps) (simp add: r rd up read lo)
  next
    case False
    with Suc.hyps(1) [OF n] show ?thesis
      by (subst scanKeypad_rows.simps) (simp add: r rd up read)
  qed
qed

lemma scanKeypad_cols_closed:
  assumes "wf_config kp" "wired kp" "cols_low kp lv"
  shows "scanKeypad_cols sw kp c lv =
           Inr (case concat (map (closed_in_col sw kp) [c..<unat (numCols kp)]) of
                  [] \<Rightarrow> 0 | ch # rest \<Rightarrow> ch, lv)"
proof (induction "unat (numCols kp) - c" arbitrary: c)
  case 0
  then show ?case by (subst scanKeypad_cols.simps) simp
next
  case (Suc n)
  then have c: "c < unat (numCols kp)" and n: "n = unat (numCols kp) - (c + 1)" by simp_all
  from assms(1) c have cl: "c < length (cols kp)" by (simp add: wf_config_def)
  then have rd: "array_read (cols kp) c = Inr (cols kp ! c)" by (simp add: array_read_in)
  have lo: "digitalWrite (cols kp ! c) LOW (digitalWrite (cols kp ! c) HIGH lv) = lv"
    using cols_low_nth [OF assms(3) cl] by (rule digitalWrite_restore)
  have up: "[c..<unat (numCols kp)] = c # [c + 1..<unat (numCols kp)]"
    using c by (simp add: upt_conv_Cons)
  note rows = scanKeypad_rows_closed [OF assms c, of sw 0, folded closed_in_col_def]
  show ?case
  proof (cases "closed_in_col sw kp c")
    case Nil
    with Suc.hyps(1) [OF n] show ?thesis
      by (subst scanKeypad_cols.simps) (simp add: c rd up rows lo)
  next
    case (Cons ch rest)
    then show ?thesis
      by (subst scanKeypad_cols.simps) (simp add: c rd up rows)
  qed
qed

lemma upt_split: "i < n \<Longrightarrow> [0..<n] = [0..<i] @ i # [Suc i..<n]"
proof -
  assume "i < n"
  then have "[0..<i + (n - i)] = [0..<i] @ [i..<i + (n - i)]"
    by (intro upt_add_eq_append) simp
  with \<open>i < n\<close> show ?thesis by (simp add: upt_conv_Cons)
qed

lemma closed_in_col_Nil:
  "(\<forall>r<unat (numRows kp). \<not> sw r c) \<Longrightarrow> closed_in_col sw kp c = []"
  by (simp add: closed_in_col_def filter_empty_conv)

lemma closed_keys_Nil:
  "(\<forall>c<unat (numCols kp). \<forall>r<unat (numRows kp). \<not> sw r c) \<Longrightarrow> closed_keys sw kp = []"
  by (simp add: closed_keys_def closed_in_col_Nil)

lemma closed_in_col_first:
  assumes "r < unat (numRows kp)" "sw r c" "\<forall>r'<r. \<not> sw r' c"
  shows "\<exists>rest. closed_in_col sw kp c = keymap kp ! r ! c # rest"
proof -
  have "[0..<unat (numRows kp)] = [0..<r] @ r # [Suc r..<unat (numRows kp)]"
    using assms(1) by (rule upt_split)
  moreover have "filter (\<lambda>r. sw r c) [0..<r] = []"
    using assms(3) by (simp add: filter_empty_conv)
  ultimately show ?thesis using assms(2) by (simp add: closed_in_col_def)
qed

lemma closed_keys_first:
  assumes "c < unat (numCols kp)" "r < unat (numRows kp)" "sw r c"
    "\<forall>c' r'. c' < unat (numCols kp) \<and> r' < unat (numRows kp) \<and> sw r' c' \<longrightarrow>
        c < c' \<or> (c = c' \<and> r \<le> r')"
  shows "\<exists>rest. closed_keys sw kp = keymap kp ! r ! c # rest"
proof -
  have split: "[0..<unat (numCols kp)] = [0..<c] @ c # [Suc c..<unat (numCols kp)]"
    using assms(1) by (rule upt_split)
  have "closed_in_col sw kp c' = []" if "c' \<in> set [0..<c]" for c'
  proof (rule closed_in_col_Nil, intro allI impI)
    fix r' assume r': "r' < unat (numRows kp)"
    from that have lt: "c' < c" by simp
    show "\<not> sw r' c'"
    proof
      assume "sw r' c'"
      with lt assms(1) r' assms(4) [rule_format, of c' r'] show False by simp
    qed
  qed
  then have before: "concat (map (closed_in_col sw kp) [0..<c]) = []"
    by (simp del: set_upt)
  have "\<forall>r'<r. \<not> sw r' c"
  proof (intro allI impI notI)
    fix r' assume "r' < r" "sw r' c"
    with assms(1,2) assms(4) [rule_format, of c r'] show False by simp
  qed
  with closed_in_col_first [of r kp sw c] assms(2,3)
  obtain rest where "closed_in_col sw kp c = keymap kp ! r ! c # rest" by blast
  then show ?thesis by (simp add: closed_keys_def split before)
qed

lemma closed_keys_cong:
  assumes "\<forall>c<unat (numCols kp). \<forall>r<unat (numRows kp). sw' r c = sw r c"
  shows "closed_keys sw' kp = closed_keys sw kp"
proof -
  have "closed_in_col sw' kp c = closed_in_col sw kp c" if "c \<in> set [0..<unat (numCols kp)]" for c
  proof -
    have "filter (\<lambda>r. sw' r c) [0..<unat (numRows kp)] = filter (\<lambda>r. sw r c) [0..<unat (numRows kp)]"
      using assms that by (intro filter_cong) auto
    then show ?thesis by (simp add: closed_in_col_def)
  qed
  then show ?thesis unfolding closed_keys_def by (intro arg_cong [where f = concat] map_cong) auto
qed

subsection \<open>The sweeps read the configuration only\<close>

lemma digitalRead_config:
  "same_config kp' kp \<Longrightarrow> digitalRead sw kp' lv p = digitalRead sw kp lv p"
  by (simp add: digitalRead_def same_config_def)

lemma scanKeypad_rows_config:
  assumes "same_config kp' kp"
  shows "scanKeypad_rows sw kp' c r lv = scanKeypad_rows sw kp c r lv"
proof (induction "unat (numRows kp) - r" arbitrary: r)
  case 0
  with assms show ?case
    by (subst scanKeypad_rows.simps, subst (2) scanKeypad_rows.simps) (simp add: same_config_def)
next
  case (Suc n)
  then have n: "n = unat (numRows kp) - (r + 1)" by simp
  from assms Suc.hyps(1) [OF n] show ?case
    by (subst scanKeypad_rows.simps, subst (2) scanKeypad_rows.simps)
       (simp add: same_config_def digitalRead_config [OF assms]
          cong: sum.case_cong if_cong option.case_cong prod.case_cong)
qed

lemma scanKeypad_cols_config:
  assumes "same_config kp' kp"
  shows "scanKeypad_cols sw kp' c lv = scanKeypad_cols sw kp c lv"
proof (induction "unat (numCols kp) - c" arbitrary: c lv)
  case 0
  with assms show ?case
    by (subst scanKeypad_cols.simps, subst (2) scanKeypad_cols.simps) (simp add: same_config_def)
next
  case (Suc n)
  then have n: "n = unat (numCols kp) - (c + 1)" by simp
  from assms Suc.hyps(1) [OF n] show ?case
    by (subst scanKeypad_cols.simps, subst (2) scanKeypad_cols.simps)
       (simp add: same_config_def scanKeypad_rows_config [OF assms]
          cong: sum.case_cong if_cong option.case_cong prod.case_cong)
qed

lemma scanKeypad_config:
  "same_config kp' kp \<Longrightarrow> scanKeypad sw kp' lv = scanKeypad sw kp lv"
  by (simp add: scanKeypad_def scanKeypad_cols_config)

lemma getKeys_rows_config:
  assumes "same_config kp' kp"
  shows "getKeys_rows sw kp' lv m c r s = getKeys_rows sw kp lv m c r s"
proof (induction "unat (numRows kp) - r" arbitrary: r s)
  case 0
  obtain count buf where s: "s = (count, buf)" by (cases s)
  from 0 assms show ?case unfolding s
    by (subst getKeys_rows.simps, subst (2) getKeys_rows.simps) (simp add: same_config_def)
next
  case (Suc n)
  then have n: "n = unat (numRows kp) - (r + 1)" by simp
  obtain count buf where s: "s = (count, buf)" by (cases s)
  from assms Suc.hyps(1) [OF n] show ?case unfolding s
    by (subst getKeys_rows.simps, subst (2) getKeys_rows.simps)
       (simp add: same_config_def digitalRead_config [OF assms]
          cong: sum.case_cong if_cong option.case_cong prod.case_cong)
qed

lemma getKeys_cols_config:
  assumes "same_config kp' kp"
  shows "getKeys_cols sw kp' m c s = getKeys_cols sw kp m c s"
proof (induction "unat (numCols kp) - c" arbitrary: c s)
  case 0
  obtain count buf lv where s: "s = (count, buf, lv)" by (cases s)
  from 0 assms show ?case unfolding s
    by (subst getKeys_cols.simps, subst (2) getKeys_cols.simps) (simp add: same_config_def)
next
  case (Suc n)
  then have n: "n = unat (numCols kp) - (c + 1)" by simp
  obtain count buf lv where s: "s = (count, buf, lv)" by (cases s)
  from assms Suc.hyps(1) [OF n] show ?case unfolding s
    by (subst getKeys_cols.simps, subst (2) getKeys_cols.simps)
       (simp add: same_config_def getKeys_rows_config [OF assms]
          cong: sum.case_cong if_cong option.case_cong prod.case_cong)
qed

lemma getKeys_config:
  "same_config kp' kp \<Longrightarrow> getKeys sw kp' lv buf m = getKeys sw kp lv buf m"
  by (simp add: getKeys_def getKeys_cols_config)

text \<open>The definitions that evaluate a scenario on the 2x2 keypad.\<close>

lemmas scenario_defs =
  returned_def called_def pressed_at_100_def scanKeypad_rows.simps scanKeypad_cols.simps scanKeypad_def getKey_def notify_def keypad2x2_def CustomKeypad_init_def
  addEventListener_def keymap2x2_def key_at_def no_key_def two_keys_def all_low_def array_read_def
  digitalRead_def digitalWrite_def KEY_PRESSED_def KEY_RELEASED_def KEY_HOLD_def fun_eq_iff


text \<open>The 2x2 keypad meets the conditions.\<close>

lemma wf_keypad2x2: "wf_config keypad2x2"
  by (simp add: wf_config_def keypad2x2_def CustomKeypad_init_def addEventListener_def keymap2x2_def)

lemma wired_keypad2x2: "wired keypad2x2"
  by (simp add: wired_def keypad2x2_def CustomKeypad_init_def addEventListener_def)

lemma cols_low_all_low: "cols_low kp all_low"
  by (simp add: cols_low_def all_low_def list_all_iff)


section \<open>The transitions of a poll\<close>

text \<open>
  Claim C2. A call of \<open>getKey\<close> whose sweep yields the key \<open>k\<close> at the time \<open>now\<close>:
  when \<open>k\<close> differs from \<open>lastKey\<close> and \<open>now - lastChange\<close> is strictly greater than the
  debounce time, the change is accepted (\<open>lastChange\<close> and \<open>pressStart\<close> become \<open>now\<close>,
  \<open>holding\<close> is cleared, \<open>keyState\<close> becomes PRESSED for a key and RELEASED for none, the
  listener is called with \<open>k\<close>); when \<open>k\<close> differs and the time has not strictly
  elapsed, an interval of exactly the debounce time included, nothing else changes and
  the listener is not called; in every case \<open>lastKey\<close> becomes \<open>k\<close> and \<open>k\<close> is returned.
\<close>

theorem getKey_transition:
  assumes "scanKeypad sw kp lv = Inr (k, lv')"
  shows "(k \<noteq> lastKey kp \<and> ucast (debounceTime kp) < now - lastChange kp \<longrightarrow>
            getKey sw now kp lv =
              Inr (k, notify kp k,
                   kp\<lparr>lastChange := now, pressStart := now, holding := False,
                      keyState := (if k \<noteq> 0 then KEY_PRESSED else KEY_RELEASED),
                      lastKey := k\<rparr>, lv')) \<and>
         (k \<noteq> lastKey kp \<and> now - lastChange kp \<le> ucast (debounceTime kp) \<longrightarrow>
            getKey sw now kp lv = Inr (k, [], kp\<lparr>lastKey := k\<rparr>, lv')) \<and>
         (k \<noteq> lastKey kp \<and> now - lastChange kp = ucast (debounceTime kp) \<longrightarrow>
            getKey sw now kp lv = Inr (k, [], kp\<lparr>lastKey := k\<rparr>, lv')) \<and>
         (\<exists>calls kp'. getKey sw now kp lv = Inr (k, calls, kp', lv') \<and> lastKey kp' = k)"
  using assms by (auto simp: getKey_def Let_def)

theorem getKey_transition_witness:
  "scanKeypad (key_at 0 0) keypad2x2 all_low = Inr (0x31, all_low) \<and>
   getKey (key_at 0 0) 100 keypad2x2 all_low =
     Inr (0x31, [(1, 0x31)],
          keypad2x2\<lparr>lastChange := 100, pressStart := 100, keyState := KEY_PRESSED,
             lastKey := 0x31\<rparr>, all_low) \<and>
   getKey (key_at 0 0) 50 keypad2x2 all_low = Inr (0x31, [], keypad2x2\<lparr>lastKey := 0x31\<rparr>, all_low)"
proof -
  have h: "scanKeypad (key_at 0 0) keypad2x2 all_low = Inr (0x31, all_low)"
    by (simp add: scenario_defs)
  have a: "getKey (key_at 0 0) 100 keypad2x2 all_low =
     Inr (0x31, [(1, 0x31)],
          keypad2x2\<lparr>lastChange := 100, pressStart := 100, keyState := KEY_PRESSED,
             lastKey := 0x31\<rparr>, all_low)"
    using getKey_transition [OF h, of 100]
    by (simp add: keypad2x2_def CustomKeypad_init_def addEventListener_def notify_def
        KEY_PRESSED_def)
  have b: "getKey (key_at 0 0) 50 keypad2x2 all_low =
     Inr (0x31, [], keypad2x2\<lparr>lastKey := 0x31\<rparr>, all_low)"
    using getKey_transition [OF h, of 50]
    by (simp add: keypad2x2_def CustomKeypad_init_def addEventListener_def)
  from h a b show ?thesis by simp
qed

lemma getKey_result:
  assumes "scanKeypad sw kp lv = Inr (key, lv')"
  shows "\<exists>calls kp'. getKey sw now kp lv = Inr (key, calls, kp', lv') \<and> same_config kp' kp"
  using assms by (simp add: getKey_def Let_def same_config_def)

subsection \<open>The pins after \<open>begin\<close>\<close>

lemma begin_cols_result:
  assumes "wf_config kp"
  shows "\<exists>md' lv'. begin_cols kp c (md, lv) = Inr (md', lv') \<and>
           (\<forall>p. lv' p = (if p \<in> set (drop c (cols kp)) then LOW else lv p))"
proof (induction "unat (numCols kp) - c" arbitrary: c md lv)
  case 0
  with assms have "drop c (cols kp) = []" by (simp add: wf_config_def)
  with 0 show ?case by (subst begin_cols.simps) simp
next
  case (Suc n)
  then have c: "c < unat (numCols kp)" and n: "n = unat (numCols kp) - (c + 1)" by simp_all
  let ?cp = "cols kp ! c"
  from assms c have cl: "c < length (cols kp)" by (simp add: wf_config_def)
  then have rd: "array_read (cols kp) c = Inr ?cp" by (simp add: array_read_in)
  have dr: "drop c (cols kp) = ?cp # drop (c + 1) (cols kp)"
    using cl by (simp add: Cons_nth_drop_Suc)
  from Suc.hyps(1) [OF n, of "pinMode ?cp OUTPUT md" "digitalWrite ?cp LOW lv"]
  obtain md' lv' where h:
    "begin_cols kp (c + 1) (pinMode ?cp OUTPUT md, digitalWrite ?cp LOW lv) = Inr (md', lv')"
    "\<forall>p. lv' p = (if p \<in> set (drop (c + 1) (cols kp)) then LOW else digitalWrite ?cp LOW lv p)"
    by blast
  have "begin_cols kp c (md, lv) = Inr (md', lv')"
    using h(1) by (subst begin_cols.simps) (simp add: c rd)
  moreover have "\<forall>p. lv' p = (if p \<in> set (drop c (cols kp)) then LOW else lv p)"
    using h(2) by (simp add: dr digitalWrite_apply)
  ultimately show ?case by blast
qed

lemma begin_rows_result:
  assumes "wf_config kp"
  shows "\<exists>md'. begin_rows kp r (md, lv) = Inr (md', lv)"
proof (induction "unat (numRows kp) - r" arbitrary: r md)
  case 0
  then show ?case by (subst begin_rows.simps) simp
next
  case (Suc n)
  then have r: "r < unat (numRows kp)" and n: "n = unat (numRows kp) - (r + 1)" by simp_all
  from assms r have rd: "array_read (rows kp) r = Inr (rows kp ! r)"
    by (simp add: array_read_in wf_config_def)
  from Suc.hyps(1) [OF n, of "pinMode (rows kp ! r) INPUT md"]
  obtain md' where "begin_rows kp (r + 1) (pinMode (rows kp ! r) INPUT md, lv) = Inr (md', lv)"
    by blast
  then have "begin_rows kp r (md, lv) = Inr (md', lv)"
    by (subst begin_rows.simps) (simp add: r rd)
  then show ?case by blast
qed

text \<open>\<open>begin\<close> leaves every column pin LOW, whatever the pins were.\<close>

lemma begin_cols_low:
  assumes "wf_config kp"
  shows "\<exists>md' lv'. CustomKeypad_begin kp (md, lv) = Inr (md', lv') \<and> cols_low kp lv'"
proof -
  from begin_cols_result [OF assms, of 0 md lv]
  obtain md1 lv1 where c: "begin_cols kp 0 (md, lv) = Inr (md1, lv1)"
    and p: "\<forall>p. lv1 p = (if p \<in> set (cols kp) then LOW else lv p)"
    by auto
  from begin_rows_result [OF assms, of 0 md1 lv1]
  obtain md2 where r: "begin_rows kp 0 (md1, lv1) = Inr (md2, lv1)" by blast
  from p have "cols_low kp lv1" by (simp add: cols_low_def list_all_iff)
  with c r show ?thesis by (simp add: CustomKeypad_begin_def)
qed

section \<open>The column pins after a sweep\<close>

text \<open>
  Claim C6. When the arrays have the announced extents and every column pin is LOW on
  entry (\<open>begin\<close> leaves them so, by \<open>begin_cols_low\<close>), \<open>getKey\<close> returns, also when it
  leaves the sweep at the first closed key, with every column pin LOW, and so does
  \<open>getKeys\<close> on a buffer that holds \<open>maxKeys\<close> characters, for every snapshot of the
  keypad.
\<close>

theorem column_pins_low_after_scan:
  assumes "wf_config kp" "cols_low kp lv" "unat maxKeys \<le> length keysBuffer"
  shows "(\<exists>key calls kp' lv'. getKey sw now kp lv = Inr (key, calls, kp', lv') \<and> cols_low kp' lv') \<and>
         (\<exists>count buf' lv'. getKeys sw kp lv keysBuffer maxKeys = Inr (count, buf', lv') \<and>
            cols_low kp lv')"
proof
  from scanKeypad_cols_total [OF assms(1), of sw 0 lv]
  obtain key lv' where s: "scanKeypad sw kp lv = Inr (key, lv')"
    and p: "\<forall>p. lv' p = lv p \<or> (lv' p = LOW \<and> p \<in> set (cols kp))"
    unfolding scanKeypad_def by blast
  have low: "cols_low kp lv'" by (rule cols_low_kept [OF assms(2) p])
  obtain calls kp' where g: "getKey sw now kp lv = Inr (key, calls, kp', lv')"
    and c: "same_config kp' kp"
    using getKey_result [OF s] by blast
  from low c have "cols_low kp' lv'" by (simp add: cols_low_def same_config_def)
  with g show "\<exists>key calls kp' lv'. getKey sw now kp lv = Inr (key, calls, kp', lv') \<and> cols_low kp' lv'"
    by blast
next
  from getKeys_cols_total [OF assms(1), of maxKeys sw 0 lv]
  obtain ws lv' where g: "getKeys_cols sw kp maxKeys 0 (0, keysBuffer, lv) =
      Inr (fst (store_keys (unat maxKeys) ws (0, keysBuffer)),
           snd (store_keys (unat maxKeys) ws (0, keysBuffer)), lv')"
    and p: "\<forall>p. lv' p = lv p \<or> (lv' p = LOW \<and> p \<in> set (cols kp))"
    using assms(3) by blast
  have "cols_low kp lv'" by (rule cols_low_kept [OF assms(2) p])
  with g show "\<exists>count buf' lv'. getKeys sw kp lv keysBuffer maxKeys = Inr (count, buf', lv') \<and>
            cols_low kp lv'"
    by (simp add: getKeys_def)
qed

theorem column_pins_low_after_scan_witness:
  "wf_config keypad2x2 \<and> cols_low keypad2x2 all_low \<and> unat (4 :: byte) \<le> length [0, 0, 0, 0 :: c_char] \<and>
   getKey two_keys 100 keypad2x2 all_low =
     Inr (0x33, [(1, 0x33)],
          keypad2x2\<lparr>lastChange := 100, pressStart := 100, keyState := KEY_PRESSED,
             lastKey := 0x33\<rparr>, all_low) \<and>
   cols_low (keypad2x2\<lparr>lastChange := 100, pressStart := 100, keyState := KEY_PRESSED,
             lastKey := 0x33\<rparr>) all_low \<and>
   getKeys two_keys keypad2x2 all_low [0, 0, 0, 0] 4 = Inr (2, [0x33, 0x32, 0, 0], all_low)"
proof -
  have l: "unat (4 :: byte) \<le> length [0, 0, 0, 0 :: c_char]" by simp
  have g: "getKey two_keys 100 keypad2x2 all_low =
     Inr (0x33, [(1, 0x33)],
          keypad2x2\<lparr>lastChange := 100, pressStart := 100, keyState := KEY_PRESSED,
             lastKey := 0x33\<rparr>, all_low)"
    by (simp add: scenario_defs)
  have k: "getKeys two_keys keypad2x2 all_low [0, 0, 0, 0] 4 = Inr (2, [0x33, 0x32, 0, 0], all_low)"
    by (simp add: scenario_defs getKeys_def getKeys_cols.simps getKeys_rows.simps array_write_def)
  from column_pins_low_after_scan [OF wf_keypad2x2 cols_low_all_low l, where sw = two_keys and now = 100]
  show ?thesis using g k wf_keypad2x2 cols_low_all_low by auto
qed

section \<open>The key that a sweep selects\<close>

lemma scanKeypad_closed:
  assumes "wf_config kp" "wired kp" "cols_low kp lv"
  shows "scanKeypad sw kp lv = Inr (case closed_keys sw kp of [] \<Rightarrow> 0 | ch # rest \<Rightarrow> ch, lv)"
  unfolding scanKeypad_def closed_keys_def by (rule scanKeypad_cols_closed [OF assms])

text \<open>
  Claim C7. With the arrays of the announced extents, no pin shared by two rows or by two
  columns, and the columns LOW on entry, \<open>scanKeypad\<close> returns 0 when no switch of the
  matrix is closed, and otherwise the keymap entry of the closed switch with the least
  column and, in that column, the least row; the character is the same for every
  snapshot with the same switches of the matrix closed, and the pins are left as found.
\<close>

theorem scanKeypad_first_closed:
  assumes "wf_config kp" "wired kp" "cols_low kp lv"
  shows "\<exists>ch. scanKeypad sw kp lv = Inr (ch, lv) \<and>
           ((\<forall>c<unat (numCols kp). \<forall>r<unat (numRows kp). \<not> sw r c) \<longrightarrow> ch = 0) \<and>
           (\<forall>c r. c < unat (numCols kp) \<and> r < unat (numRows kp) \<and> sw r c \<and>
                  (\<forall>c' r'. c' < unat (numCols kp) \<and> r' < unat (numRows kp) \<and> sw r' c' \<longrightarrow>
                     c < c' \<or> (c = c' \<and> r \<le> r')) \<longrightarrow>
                  ch = keymap kp ! r ! c) \<and>
           (\<forall>sw'. (\<forall>c<unat (numCols kp). \<forall>r<unat (numRows kp). sw' r c = sw r c) \<longrightarrow>
                  scanKeypad sw' kp lv = Inr (ch, lv))"
proof -
  let ?ch = "case closed_keys sw kp of [] \<Rightarrow> 0 | ch # rest \<Rightarrow> ch"
  have s: "scanKeypad sw kp lv = Inr (?ch, lv)" by (rule scanKeypad_closed [OF assms])
  have none: "(\<forall>c<unat (numCols kp). \<forall>r<unat (numRows kp). \<not> sw r c) \<longrightarrow> ?ch = 0"
    by (simp add: closed_keys_Nil)
  have first: "?ch = keymap kp ! r ! c"
    if "c < unat (numCols kp) \<and> r < unat (numRows kp) \<and> sw r c \<and>
        (\<forall>c' r'. c' < unat (numCols kp) \<and> r' < unat (numRows kp) \<and> sw r' c' \<longrightarrow>
           c < c' \<or> (c = c' \<and> r \<le> r'))" for c r
  proof -
    from that closed_keys_first [of c kp r sw]
    obtain rest where "closed_keys sw kp = keymap kp ! r ! c # rest" by blast
    then show ?thesis by simp
  qed
  have det: "scanKeypad sw' kp lv = Inr (?ch, lv)"
    if "\<forall>c<unat (numCols kp). \<forall>r<unat (numRows kp). sw' r c = sw r c" for sw'
    using scanKeypad_closed [OF assms, of sw'] closed_keys_cong [OF that] by simp
  from s none first det show ?thesis by blast
qed

theorem scanKeypad_first_closed_witness:
  "wf_config keypad2x2 \<and> wired keypad2x2 \<and> cols_low keypad2x2 all_low \<and>
   scanKeypad two_keys keypad2x2 all_low = Inr (0x33, all_low) \<and>
   scanKeypad no_key keypad2x2 all_low = Inr (0, all_low)"
proof -
  have n: "unat (numCols keypad2x2) = 2" "unat (numRows keypad2x2) = 2"
    "keymap keypad2x2 ! 1 ! 0 = 0x33"
    by (simp_all add: keypad2x2_def CustomKeypad_init_def addEventListener_def keymap2x2_def)
  from scanKeypad_first_closed [OF wf_keypad2x2 wired_keypad2x2 cols_low_all_low, of two_keys]
  obtain ch where ch: "scanKeypad two_keys keypad2x2 all_low = Inr (ch, all_low)"
    and first: "\<And>c r. c < 2 \<and> r < 2 \<and> two_keys r c \<and>
        (\<forall>c' r'. c' < 2 \<and> r' < 2 \<and> two_keys r' c' \<longrightarrow> c < c' \<or> (c = c' \<and> r \<le> r')) \<Longrightarrow>
        ch = keymap keypad2x2 ! r ! c"
    unfolding n by blast
  have "ch = keymap keypad2x2 ! 1 ! 0"
    by (rule first) (auto simp: two_keys_def)
  with ch n have a: "scanKeypad two_keys keypad2x2 all_low = Inr (0x33, all_low)" by simp
  from scanKeypad_first_closed [OF wf_keypad2x2 wired_keypad2x2 cols_low_all_low, of no_key]
  obtain ch0 where ch0: "scanKeypad no_key keypad2x2 all_low = Inr (ch0, all_low)"
    and none: "(\<forall>c<2. \<forall>r<2. \<not> no_key r c) \<longrightarrow> ch0 = 0"
    unfolding n by blast
  from none have "ch0 = 0" by (simp add: no_key_def)
  with ch0 have b: "scanKeypad no_key keypad2x2 all_low = Inr (0, all_low)" by simp
  from a b wf_keypad2x2 wired_keypad2x2 cols_low_all_low show ?thesis by simp
qed

section \<open>The snapshot of all closed keys\<close>

lemma unat_count: "n \<le> unat (m :: byte) \<Longrightarrow> unat (of_nat n :: byte) = n"
proof -
  assume "n \<le> unat m"
  moreover have "unat m < 2 ^ LENGTH(8)" by (rule unsigned_less)
  ultimately have "n < 2 ^ LENGTH(8)" by simp
  then show ?thesis by (simp add: unat_of_nat take_bit_nat_eq_self)
qed

lemma getKeys_closed:
  assumes "wf_config kp" "wired kp" "cols_low kp lv" "unat maxKeys \<le> length keysBuffer"
  shows "getKeys sw kp lv keysBuffer maxKeys =
           Inr (of_nat (min (unat maxKeys) (length (closed_keys sw kp))),
                take (unat maxKeys) (closed_keys sw kp) @
                  drop (min (unat maxKeys) (length (closed_keys sw kp))) keysBuffer,
                lv)"
  using getKeys_cols_closed [OF assms, of sw 0 0] assms(4)
  by (simp add: getKeys_def store_keys_closed closed_keys_def)

text \<open>
  Claim C8. Under the conditions of the sweep and with a buffer that holds \<open>maxKeys\<close>
  characters, \<open>getKeys\<close> writes the characters of the closed switches in sweep order
  (ascending column, then ascending row) to the front of the buffer, as many as there
  are but at most \<open>maxKeys\<close>, leaves the rest of the buffer as it was and returns the
  number written. The model of \<open>getKeys\<close> returns no object, as the function assigns no
  member; its result is the same on every object with the same pins, dimensions and
  keymap, whatever the members of the state machine hold. On the 2x2 keypad with the
  switches (row 0, column 1) and (row 1, column 0) closed the buffer starts with
  \<^verbatim>\<open>'3'\<close>, \<^verbatim>\<open>'2'\<close> and the count is 2.
\<close>

theorem getKeys_sweep:
  assumes "wf_config kp" "wired kp" "cols_low kp lv" "unat maxKeys \<le> length keysBuffer"
  shows "\<exists>count. getKeys sw kp lv keysBuffer maxKeys =
             Inr (count, take (unat count) (closed_keys sw kp) @ drop (unat count) keysBuffer, lv) \<and>
           unat count = min (unat maxKeys) (length (closed_keys sw kp)) \<and>
           (\<forall>kp'. same_config kp' kp \<longrightarrow>
              getKeys sw kp' lv keysBuffer maxKeys = getKeys sw kp lv keysBuffer maxKeys)"
proof -
  let ?n = "min (unat maxKeys) (length (closed_keys sw kp))"
  have u: "unat (of_nat ?n :: byte) = ?n" by (rule unat_count [of _ maxKeys]) simp
  have t: "take (unat maxKeys) (closed_keys sw kp) = take ?n (closed_keys sw kp)"
    by (simp add: min_def)
  from getKeys_closed [OF assms, of sw] u t getKeys_config [of _ kp sw lv keysBuffer maxKeys]
  show ?thesis by (intro exI [of _ "of_nat ?n"]) simp
qed

theorem getKeys_sweep_witness:
  "wf_config keypad2x2 \<and> wired keypad2x2 \<and> cols_low keypad2x2 all_low \<and>
   unat (4 :: byte) \<le> length [0, 0, 0, 0 :: c_char] \<and>
   closed_keys two_keys keypad2x2 = [0x33, 0x32] \<and>
   getKeys two_keys keypad2x2 all_low [0, 0, 0, 0] 4 = Inr (2, [0x33, 0x32, 0, 0], all_low) \<and>
   same_config (keypad2x2\<lparr>lastKey := 0x31, keyState := KEY_HOLD, holding := True\<rparr>) keypad2x2 \<and>
   getKeys two_keys (keypad2x2\<lparr>lastKey := 0x31, keyState := KEY_HOLD, holding := True\<rparr>)
     all_low [0, 0, 0, 0] 4 = Inr (2, [0x33, 0x32, 0, 0], all_low)"
proof -
  have l: "unat (4 :: byte) \<le> length [0, 0, 0, 0 :: c_char]" by simp
  have ck: "closed_keys two_keys keypad2x2 = [0x33, 0x32]"
    by (simp add: closed_keys_def closed_in_col_def two_keys_def keypad2x2_def
        CustomKeypad_init_def addEventListener_def keymap2x2_def upt_rec)
  have sc: "same_config (keypad2x2\<lparr>lastKey := 0x31, keyState := KEY_HOLD, holding := True\<rparr>) keypad2x2"
    by (simp add: same_config_def)
  from getKeys_sweep [OF wf_keypad2x2 wired_keypad2x2 cols_low_all_low l, of two_keys]
  obtain count where g: "getKeys two_keys keypad2x2 all_low [0, 0, 0, 0] 4 =
      Inr (count, take (unat count) (closed_keys two_keys keypad2x2) @ drop (unat count) [0, 0, 0, 0], all_low)"
    and n: "unat count = min (unat (4 :: byte)) (length (closed_keys two_keys keypad2x2))"
    and i: "\<And>kp'. same_config kp' keypad2x2 \<Longrightarrow>
        getKeys two_keys kp' all_low [0, 0, 0, 0] 4 = getKeys two_keys keypad2x2 all_low [0, 0, 0, 0] 4"
    by blast
  from n have n2: "unat count = 2" by (simp add: ck)
  then have "count = 2" by (simp add: word_unat_eq_iff)
  with g n2 have a: "getKeys two_keys keypad2x2 all_low [0, 0, 0, 0] 4 =
      Inr (2, [0x33, 0x32, 0, 0], all_low)" by (simp add: ck)
  from i [OF sc] a wf_keypad2x2 wired_keypad2x2 cols_low_all_low ck sc show ?thesis by simp
qed

text \<open>
  Claim C10. A write outside the extent of the buffer is the error \<open>OutOfBounds\<close> in this
  model. With the arrays of the configuration of the announced extents, and for every
  snapshot, every state of the pins and every \<open>maxKeys\<close>, \<open>getKeys\<close> succeeds on every
  buffer that holds \<open>maxKeys\<close> characters, a buffer of exactly \<open>maxKeys\<close> characters
  included: every write is at an index below \<open>maxKeys\<close>. The count returned is at most
  \<open>maxKeys\<close>, and it is the number of the characters written: these are the same
  characters \<open>ws\<close> for every buffer, they are the first \<open>count\<close> entries afterwards, and
  the entries after them are those of the buffer given.
\<close>

theorem getKeys_within_buffer:
  assumes "wf_config kp"
  shows "\<exists>count ws lv'. unat count = length ws \<and> count \<le> maxKeys \<and>
           (\<forall>buf. unat maxKeys \<le> length buf \<longrightarrow>
              getKeys sw kp lv buf maxKeys = Inr (count, ws @ drop (unat count) buf, lv'))"
proof -
  from getKeys_cols_total [OF assms, of maxKeys sw 0 lv]
  obtain ws lv' where g: "\<And>buf. unat maxKeys \<le> length buf \<Longrightarrow>
      getKeys_cols sw kp maxKeys 0 (0, buf, lv) =
        Inr (fst (store_keys (unat maxKeys) ws (0, buf)),
             snd (store_keys (unat maxKeys) ws (0, buf)), lv')"
    by blast
  let ?n = "min (unat maxKeys) (length ws)"
  let ?count = "of_nat ?n :: byte"
  have u: "unat ?count = ?n" by (rule unat_count [of _ maxKeys]) simp
  have len: "unat ?count = length (take (unat maxKeys) ws)" by (simp add: u)
  have le: "?count \<le> maxKeys" by (simp add: word_le_nat_alt u)
  have "getKeys sw kp lv buf maxKeys =
      Inr (?count, take (unat maxKeys) ws @ drop (unat ?count) buf, lv')"
    if "unat maxKeys \<le> length buf" for buf
    using g [OF that] that by (simp add: getKeys_def store_keys_closed u)
  with len le show ?thesis by blast
qed

theorem getKeys_within_buffer_witness:
  "wf_config keypad2x2 \<and> unat (1 :: byte) \<le> length [0 :: c_char] \<and>
   getKeys two_keys keypad2x2 all_low [0] 1 = Inr (1, [0x33], all_low)"
proof -
  have ev: "getKeys two_keys keypad2x2 all_low [0] 1 = Inr (1, [0x33], all_low)"
    by (simp add: scenario_defs getKeys_def getKeys_cols.simps getKeys_rows.simps array_write_def)
  from getKeys_within_buffer [OF wf_keypad2x2, of 1 two_keys all_low]
  obtain count ws lv' where "unat count = length ws" "count \<le> 1"
    and g: "\<And>buf. unat (1 :: byte) \<le> length buf \<Longrightarrow>
       getKeys two_keys keypad2x2 all_low buf 1 = Inr (count, ws @ drop (unat count) buf, lv')"
    by blast
  from g [of "[0]"] ev wf_keypad2x2 show ?thesis by simp
qed

section \<open>Holding a key\<close>

lemma polls_append:
  "polls (ps @ qs) kp lv =
     (case polls ps kp lv of Inl e \<Rightarrow> Inl e
      | Inr (out, kp', lv') \<Rightarrow>
         (case polls qs kp' lv' of Inl e \<Rightarrow> Inl e
          | Inr (out', kp'', lv'') \<Rightarrow> Inr (out @ out', kp'', lv'')))"
proof (induction ps arbitrary: kp lv)
  case Nil
  show ?case by (simp split: sum.splits prod.splits)
next
  case (Cons p ps)
  obtain sw now where p: "p = (sw, now)" by (cases p)
  show ?case unfolding p by (simp add: Cons.IH split: sum.splits prod.splits)
qed

text \<open>
  Polls that scan the key that \<open>lastKey\<close> holds, while nothing is due: no key, or the hold
  already signalled, or the hold time not reached.
\<close>

lemma polls_steady:
  assumes "lastKey kp = K"
    "\<forall>(sw, t) \<in> set ps. scanKeypad sw kp lv = Inr (K, lv)"
    "\<forall>(sw, t) \<in> set ps. K = 0 \<or> holding kp \<or> t - pressStart kp < ucast (holdTime kp)"
  shows "polls ps kp lv = Inr (map (\<lambda>p. (K, [])) ps, kp, lv)"
  using assms(2,3)
proof (induction ps)
  case Nil
  show ?case by simp
next
  case (Cons p ps)
  obtain sw now where p: "p = (sw, now)" by (cases p)
  from Cons.prems p have s: "scanKeypad sw kp lv = Inr (K, lv)"
    and q: "K = 0 \<or> holding kp \<or> now - pressStart kp < ucast (holdTime kp)" by simp_all
  have kp: "kp\<lparr>lastKey := K\<rparr> = kp" using assms(1) by simp
  from q have nh: "(K \<noteq> 0 \<and> \<not> holding kp \<and> ucast (holdTime kp) \<le> now - pressStart kp) = False"
    by auto
  have g: "getKey sw now kp lv = Inr (K, [], kp, lv)"
    by (simp add: getKey_def s assms(1) [symmetric] nh [unfolded assms(1) [symmetric]])
  from Cons.prems have "polls ps kp lv = Inr (map (\<lambda>p. (K, [])) ps, kp, lv)"
    by (intro Cons.IH) simp_all
  with g show ?case unfolding p by simp
qed

text \<open>
  Claim C5. A key \<open>K\<close> is accepted (\<open>lastKey\<close> holds it and \<open>holding\<close> is clear) and every
  poll scans \<open>K\<close>. The polls with \<open>now - pressStart\<close> below the hold time call nothing
  and change nothing. The first poll with \<open>now - pressStart\<close> at or above the hold time,
  the boundary included, sets \<open>keyState\<close> to HOLD and \<open>holding\<close>, and calls the listener
  once, with \<open>K\<close>, when one is registered. No poll after it calls the listener, whatever
  its time, as long as \<open>K\<close> is scanned: one press gives at most one hold event.
\<close>

theorem hold_entry_once:
  assumes "lastKey kp = K" "K \<noteq> 0" "\<not> holding kp"
    "\<forall>(sw, t) \<in> set (before @ [(sw0, t0)] @ after). scanKeypad sw kp lv = Inr (K, lv)"
    "\<forall>(sw, t) \<in> set before. t - pressStart kp < ucast (holdTime kp)"
    "ucast (holdTime kp) \<le> t0 - pressStart kp"
  shows "polls (before @ [(sw0, t0)]) kp lv =
           Inr (map (\<lambda>p. (K, [])) before @ [(K, notify kp K)],
                kp\<lparr>keyState := KEY_HOLD, holding := True\<rparr>, lv) \<and>
         polls (before @ [(sw0, t0)] @ after) kp lv =
           Inr (map (\<lambda>p. (K, [])) before @ [(K, notify kp K)] @ map (\<lambda>p. (K, [])) after,
                kp\<lparr>keyState := KEY_HOLD, holding := True\<rparr>, lv) \<and>
         (\<forall>f. eventListener kp = Some f \<longrightarrow> notify kp K = [(f, K)])"
proof -
  let ?hold = "kp\<lparr>keyState := KEY_HOLD, holding := True\<rparr>"
  have b: "polls before kp lv = Inr (map (\<lambda>p. (K, [])) before, kp, lv)"
    using assms(4,5) by (intro polls_steady [OF assms(1)]) auto
  from assms(4) have s0: "scanKeypad sw0 kp lv = Inr (K, lv)" by simp
  have "kp\<lparr>keyState := KEY_HOLD, holding := True, lastKey := K\<rparr> = ?hold"
    using assms(1) by simp
  then have g: "getKey sw0 t0 kp lv = Inr (K, notify kp K, ?hold, lv)"
    using assms(1,2,3,6) s0 by (simp add: getKey_def)
  have sc: "same_config ?hold kp" by (simp add: same_config_def)
  have a: "polls after ?hold lv = Inr (map (\<lambda>p. (K, [])) after, ?hold, lv)"
  proof (rule polls_steady)
    show "lastKey ?hold = K" using assms(1) by simp
    show "\<forall>(sw, t) \<in> set after. scanKeypad sw ?hold lv = Inr (K, lv)"
      using assms(4) by (auto simp: scanKeypad_config [OF sc])
    show "\<forall>(sw, t) \<in> set after. K = 0 \<or> holding ?hold \<or> t - pressStart ?hold < ucast (holdTime ?hold)"
      by auto
  qed
  have one: "polls [(sw0, t0)] kp lv = Inr ([(K, notify kp K)], ?hold, lv)"
    using g by simp
  have first: "polls (before @ [(sw0, t0)]) kp lv =
           Inr (map (\<lambda>p. (K, [])) before @ [(K, notify kp K)], ?hold, lv)"
    by (simp only: polls_append [of before] b one sum.case prod.case)
  have "polls ((before @ [(sw0, t0)]) @ after) kp lv =
           Inr ((map (\<lambda>p. (K, [])) before @ [(K, notify kp K)]) @ map (\<lambda>p. (K, [])) after, ?hold, lv)"
    by (simp only: polls_append [of "before @ [(sw0, t0)]"] first a sum.case prod.case)
  then have all: "polls (before @ [(sw0, t0)] @ after) kp lv =
           Inr (map (\<lambda>p. (K, [])) before @ [(K, notify kp K)] @ map (\<lambda>p. (K, [])) after, ?hold, lv)"
    by simp
  have "\<forall>f. eventListener kp = Some f \<longrightarrow> notify kp K = [(f, K)]"
    by (simp add: notify_def)
  with first all show ?thesis by blast
qed

theorem hold_entry_once_witness:
  "lastKey (pressed_at_100 0x34) = 0x34 \<and> (0x34 :: c_char) \<noteq> 0 \<and> \<not> holding (pressed_at_100 0x34) \<and>
   scanKeypad (key_at 1 1) (pressed_at_100 0x34) all_low = Inr (0x34, all_low) \<and>
   (600 :: unsigned_long) - pressStart (pressed_at_100 0x34) < ucast (holdTime (pressed_at_100 0x34)) \<and>
   ucast (holdTime (pressed_at_100 0x34)) \<le> (1100 :: unsigned_long) - pressStart (pressed_at_100 0x34) \<and>
   polls [(key_at 1 1, 600), (key_at 1 1, 1100), (key_at 1 1, 1600)] (pressed_at_100 0x34) all_low =
     Inr ([(0x34, []), (0x34, [(1, 0x34)]), (0x34, [])],
          (pressed_at_100 0x34)\<lparr>keyState := KEY_HOLD, holding := True\<rparr>, all_low)"
proof -
  have a: "lastKey (pressed_at_100 0x34) = 0x34" "(0x34 :: c_char) \<noteq> 0"
    "\<not> holding (pressed_at_100 0x34)"
    by (simp_all add: scenario_defs)
  have s: "scanKeypad (key_at 1 1) (pressed_at_100 0x34) all_low = Inr (0x34, all_low)"
    by (simp add: scenario_defs)
  have t: "(600 :: unsigned_long) - pressStart (pressed_at_100 0x34) < ucast (holdTime (pressed_at_100 0x34))"
    "ucast (holdTime (pressed_at_100 0x34)) \<le> (1100 :: unsigned_long) - pressStart (pressed_at_100 0x34)"
    by (simp_all add: scenario_defs)
  have n: "notify (pressed_at_100 0x34) 0x34 = [(1, 0x34)]"
    by (simp add: scenario_defs)
  from hold_entry_once [of "pressed_at_100 0x34" "0x34" "[(key_at 1 1, 600)]" "key_at 1 1" 1100
      "[(key_at 1 1, 1600)]" all_low, OF a] s t
  have "polls ([(key_at 1 1, 600)] @ [(key_at 1 1, 1100)] @ [(key_at 1 1, 1600)]) (pressed_at_100 0x34) all_low =
     Inr (map (\<lambda>p. (0x34, [])) [(key_at 1 1, 600 :: unsigned_long)] @ [(0x34, notify (pressed_at_100 0x34) 0x34)] @
            map (\<lambda>p. (0x34, [])) [(key_at 1 1, 1600 :: unsigned_long)],
          (pressed_at_100 0x34)\<lparr>keyState := KEY_HOLD, holding := True\<rparr>, all_low)"
    by simp
  then have "polls [(key_at 1 1, 600), (key_at 1 1, 1100), (key_at 1 1, 1600)] (pressed_at_100 0x34) all_low =
     Inr ([(0x34, []), (0x34, [(1, 0x34)]), (0x34, [])],
          (pressed_at_100 0x34)\<lparr>keyState := KEY_HOLD, holding := True\<rparr>, all_low)"
    by (simp add: n)
  with a s t show ?thesis by simp
qed

section \<open>A change inside the debounce window\<close>

text \<open>
  Claim C9. The key \<open>K\<close> is accepted at the time \<open>t0\<close>. The next poll, at \<open>t1\<close> with
  \<open>t1 - t0\<close> at most the debounce time, scans no key, and the poll after it, at \<open>t2\<close> with
  \<open>t2 - t0\<close> above the debounce time, scans \<open>K\<close> again. The poll at \<open>t1\<close> calls nothing
  (no release is signalled), and the poll at \<open>t2\<close> accepts \<open>K\<close> as a new press: it calls
  the listener with \<open>K\<close>, sets \<open>keyState\<close> to PRESSED and sets \<open>pressStart\<close> to \<open>t2\<close>.
\<close>

theorem press_again_after_bounce:
  assumes "K \<noteq> 0" "K \<noteq> lastKey kp" "ucast (debounceTime kp) < t0 - lastChange kp"
    "scanKeypad swK kp lv = Inr (K, lv)"
    "scanKeypad sw0 kp lv = Inr (0, lv)"
    "scanKeypad swK' kp lv = Inr (K, lv)"
    "t1 - t0 \<le> ucast (debounceTime kp)"
    "ucast (debounceTime kp) < t2 - t0"
  shows "polls [(swK, t0), (sw0, t1), (swK', t2)] kp lv =
           Inr ([(K, notify kp K), (0, []), (K, notify kp K)],
                kp\<lparr>lastChange := t2, pressStart := t2, holding := False,
                   keyState := KEY_PRESSED, lastKey := K\<rparr>, lv)"
proof -
  let ?kp1 = "kp\<lparr>lastChange := t0, pressStart := t0, holding := False,
                 keyState := KEY_PRESSED, lastKey := K\<rparr>"
  let ?kp2 = "?kp1\<lparr>lastKey := 0\<rparr>"
  let ?kp3 = "kp\<lparr>lastChange := t2, pressStart := t2, holding := False,
                 keyState := KEY_PRESSED, lastKey := K\<rparr>"
  have g1: "getKey swK t0 kp lv = Inr (K, notify kp K, ?kp1, lv)"
    using assms(1,2,3,4) by (simp add: getKey_def)
  have sc1: "same_config ?kp1 kp" and sc2: "same_config ?kp2 kp"
    by (simp_all add: same_config_def)
  have s1: "scanKeypad sw0 ?kp1 lv = Inr (0, lv)"
    using assms(5) by (simp only: scanKeypad_config [OF sc1])
  have s2: "scanKeypad swK' ?kp2 lv = Inr (K, lv)"
    using assms(6) by (simp only: scanKeypad_config [OF sc2])
  have g2: "getKey sw0 t1 ?kp1 lv = Inr (0, [], ?kp2, lv)"
    using assms(1,7) s1 by (simp add: getKey_def not_less [symmetric])
  have g3: "getKey swK' t2 ?kp2 lv = Inr (K, notify kp K, ?kp3, lv)"
    using assms(1,8) s2 by (simp add: getKey_def notify_def)
  from g1 g2 g3 show ?thesis by simp
qed

theorem press_again_after_bounce_witness:
  "(0x31 :: c_char) \<noteq> 0 \<and> 0x31 \<noteq> lastKey keypad2x2 \<and>
   ucast (debounceTime keypad2x2) < (100 :: unsigned_long) - lastChange keypad2x2 \<and>
   scanKeypad (key_at 0 0) keypad2x2 all_low = Inr (0x31, all_low) \<and>
   scanKeypad no_key keypad2x2 all_low = Inr (0, all_low) \<and>
   (120 :: unsigned_long) - 100 \<le> ucast (debounceTime keypad2x2) \<and>
   ucast (debounceTime keypad2x2) < (180 :: unsigned_long) - 100 \<and>
   polls [(key_at 0 0, 100), (no_key, 120), (key_at 0 0, 180)] keypad2x2 all_low =
     Inr ([(0x31, [(1, 0x31)]), (0, []), (0x31, [(1, 0x31)])],
          keypad2x2\<lparr>lastChange := 180, pressStart := 180, holding := False,
             keyState := KEY_PRESSED, lastKey := 0x31\<rparr>, all_low)"
proof -
  have a: "(0x31 :: c_char) \<noteq> 0" "0x31 \<noteq> lastKey keypad2x2"
    "ucast (debounceTime keypad2x2) < (100 :: unsigned_long) - lastChange keypad2x2"
    "scanKeypad (key_at 0 0) keypad2x2 all_low = Inr (0x31, all_low)"
    "scanKeypad no_key keypad2x2 all_low = Inr (0, all_low)"
    "scanKeypad (key_at 0 0) keypad2x2 all_low = Inr (0x31, all_low)"
    "(120 :: unsigned_long) - 100 \<le> ucast (debounceTime keypad2x2)"
    "ucast (debounceTime keypad2x2) < (180 :: unsigned_long) - 100"
    by (simp_all add: scenario_defs)
  have n: "notify keypad2x2 0x31 = [(1, 0x31)]" by (simp add: scenario_defs)
  from press_again_after_bounce [OF a] n a show ?thesis by simp
qed

text \<open>
  Claim C1, as the specification states it, fails: after the press of \<^verbatim>\<open>'1'\<close> (0x31) has
  been accepted at 100, the poll at 120 that scans no key returns 0, the key it scanned,
  and not \<^verbatim>\<open>'1'\<close>.
\<close>

theorem poll_inside_debounce_window_counterexample:
  "returned (polls [(no_key, 0), (key_at 0 0, 100), (no_key, 120)] keypad2x2 all_low) = [0, 0x31, 0] \<and>
   returned (polls [(no_key, 0), (key_at 0 0, 100), (no_key, 120)] keypad2x2 all_low) \<noteq> [0, 0x31, 0x31]"
  by (simp add: scenario_defs)

text \<open>
  Claim C1, amended. On the 2x2 keypad with the default debounce time of 50 ms, the polls
  at 0 (no key) and at 100 (\<^verbatim>\<open>'1'\<close> closed) accept the press of \<^verbatim>\<open>'1'\<close>. A poll at 120
  that scans no key, or the other key \<^verbatim>\<open>'3'\<close> (0x33), returns the key it scanned, calls
  nothing and leaves \<open>keyState\<close>, \<open>lastChange\<close>, \<open>pressStart\<close> and \<open>holding\<close> as they were:
  the change is not accepted inside the window. The poll at 180 returns 0. In the
  scenario of the swap (\<^verbatim>\<open>'1'\<close> closed at 0, \<^verbatim>\<open>'3'\<close> instead of it at 30 and at 100) the
  poll at 30 returns \<^verbatim>\<open>'3'\<close> without a call of the listener and the poll at 100 returns
  \<^verbatim>\<open>'3'\<close>.
\<close>

theorem poll_inside_debounce_window:
  "polls [(no_key, 0), (key_at 0 0, 100)] keypad2x2 all_low =
     Inr ([(0, []), (0x31, [(1, 0x31)])], pressed_at_100 0x31, all_low) \<and>
   getKey no_key 120 (pressed_at_100 0x31) all_low =
     Inr (0, [], (pressed_at_100 0x31)\<lparr>lastKey := 0\<rparr>, all_low) \<and>
   getKey (key_at 1 0) 120 (pressed_at_100 0x31) all_low =
     Inr (0x33, [], (pressed_at_100 0x31)\<lparr>lastKey := 0x33\<rparr>, all_low) \<and>
   returned (polls [(no_key, 0), (key_at 0 0, 100), (no_key, 120), (no_key, 180)] keypad2x2 all_low) =
     [0, 0x31, 0, 0] \<and>
   returned (polls [(key_at 0 0, 0), (key_at 1 0, 30), (key_at 1 0, 100)] keypad2x2 all_low) =
     [0x31, 0x33, 0x33] \<and>
   called (polls [(key_at 0 0, 0), (key_at 1 0, 30)] keypad2x2 all_low) ! 1 = []"
  by (simp add: scenario_defs)

section \<open>The state and the key\<close>

text \<open>
  Claim C3 says that \<open>keyState\<close> is RELEASED exactly when \<open>lastKey\<close> is 0, in every state
  that polls reach. The code reaches states where this fails. After \<^verbatim>\<open>'1'\<close> is accepted
  at 100 and released by 120, the polls at 120 and at 180 scan no key: the one at 120 is
  inside the window and only stores 0 in \<open>lastKey\<close>, so that the one at 180 sees no change.
  The state stays PRESSED with \<open>lastKey = 0\<close>, and the listener never hears of the release.
  And a key that is closed at the first poll, at the time 0, is stored in \<open>lastKey\<close> while
  the state stays RELEASED.
\<close>

theorem released_key_left_pressed:
  "polls [(no_key, 0), (key_at 0 0, 100), (no_key, 120), (no_key, 180)] keypad2x2 all_low =
     Inr ([(0, []), (0x31, [(1, 0x31)]), (0, []), (0, [])],
          keypad2x2\<lparr>lastChange := 100, pressStart := 100, keyState := KEY_PRESSED,
             lastKey := 0\<rparr>, all_low) \<and>
   polls [(key_at 0 0, 0)] keypad2x2 all_low =
     Inr ([(0x31, [])], keypad2x2\<lparr>keyState := KEY_RELEASED, lastKey := 0x31\<rparr>, all_low)"
  by (simp add: scenario_defs)

text \<open>
  \<open>holding\<close> is set together with the state HOLD and cleared whenever the state changes:
  the first half of the latch invariant is kept by every poll.
\<close>

lemma getKey_holding_hold:
  assumes "getKey sw now kp lv = Inr (key, calls, kp', lv')"
    "holding kp \<longrightarrow> keyState kp = KEY_HOLD"
  shows "holding kp' \<longrightarrow> keyState kp' = KEY_HOLD"
  using assms by (auto simp: getKey_def Let_def split: sum.splits if_splits)

lemma polls_holding_hold:
  assumes "polls ps kp lv = Inr (out, kp', lv')"
    "holding kp \<longrightarrow> keyState kp = KEY_HOLD"
  shows "holding kp' \<longrightarrow> keyState kp' = KEY_HOLD"
  using assms
proof (induction ps arbitrary: kp lv out)
  case Nil
  then show ?case by simp
next
  case (Cons p ps)
  obtain sw now where p: "p = (sw, now)" by (cases p)
  from Cons.prems(1) obtain key calls kp1 lv1 out1 where
    g: "getKey sw now kp lv = Inr (key, calls, kp1, lv1)"
    and r: "polls ps kp1 lv1 = Inr (out1, kp', lv')"
    unfolding p by (auto split: sum.splits)
  from getKey_holding_hold [OF g Cons.prems(2)] Cons.IH [OF r] show ?case by blast
qed

text \<open>
  Claim C4 says that \<open>holding\<close> implies the state HOLD and \<open>lastKey \<noteq> 0\<close>, for all hold
  and debounce times. With a hold time of 10 ms (below the debounce time of 50 ms) the
  code reaches a state where \<open>holding\<close> is set and \<open>lastKey\<close> is 0: \<^verbatim>\<open>'1'\<close> is accepted at
  100, held at 110 and released by 120, inside the window.
\<close>

theorem holding_without_key:
  "polls [(key_at 0 0, 100), (key_at 0 0, 110), (no_key, 120)] (setHoldTime 10 keypad2x2) all_low =
     Inr ([(0x31, [(1, 0x31)]), (0x31, [(1, 0x31)]), (0, [])],
          keypad2x2\<lparr>holdTime := 10, lastChange := 100, pressStart := 100,
             keyState := KEY_HOLD, holding := True, lastKey := 0\<rparr>, all_low)"
  by (simp add: scenario_defs setHoldTime_def)

end
